theory Spec2Isabelle
  imports Main "HOL-Library.AList" "HOL-Library.Multiset" "HOL-Library.Sublist"
    "HOL-Library.Word"
begin

section \<open>Data model of meshexp.go\<close>

text \<open>
  Go strings are byte sequences: \<open>string\<close> (a list of 8-bit characters).
  A Go \<open>map[string]Node\<close> that the code ranges over is an association list with
  distinct keys, a new key going to the end; Go leaves the order of a \<open>range\<close> over a
  map open, the list fixes one such order.  \<open>Locations\<close> is only read and written by
  key, so it is a partial function.  A panic (an index out of range) and the returned
  error are values of \<open>error\<close>.
\<close>

record TreeReference =
  MedicalSubjectHeading :: string
  TreeLocation :: "string list"

datatype Node =
  Node (Reference: TreeReference) (Children: "(string \<times> Node) list") (Depth: "64 word")

type_synonym Tree = "(string \<times> Node) list"

record MeSHTree =
  Tree :: Tree
  Locations :: "string \<rightharpoonup> string list list"

datatype error = FormatError string | IndexOutOfRange

section \<open>Library functions of package strings, on single-byte separators\<close>

text \<open>\<open>strings.Split(s, sep)\<close>: the pieces of \<open>s\<close> between the occurrences of \<open>sep\<close>;
  one piece more than there are separators, so never an empty slice.\<close>

fun Split :: "string \<Rightarrow> char \<Rightarrow> string list" where
  "Split [] sep = [[]]"
| "Split (c # cs) sep =
     (if c = sep then [] # Split cs sep
      else (case Split cs sep of [] \<Rightarrow> [[c]] | p # ps \<Rightarrow> (c # p) # ps))"

text \<open>\<open>strings.Join(elems, sep)\<close>.\<close>

fun Join :: "string list \<Rightarrow> char \<Rightarrow> string" where
  "Join [] sep = []"
| "Join [a] sep = a"
| "Join (a # b # rest) sep = a @ sep # Join (b # rest) sep"

text \<open>\<open>strings.ToLower\<close> on ASCII text: the letters A to Z move to a to z, every other
  byte stays.\<close>

definition lower_byte :: "char \<Rightarrow> char" where
  "lower_byte c =
     (let n = (of_char c :: nat) in if 65 \<le> n \<and> n \<le> 90 then char_of (n + 32) else c)"

definition ToLower :: "string \<Rightarrow> string" where
  "ToLower s = map lower_byte s"

section \<open>The parser\<close>

definition treeReferenceFromString :: "string \<Rightarrow> error + TreeReference" where
  "treeReferenceFromString text =
     (let parts = Split text CHR '';'' in
      if length parts \<noteq> 2 then Inl (FormatError (''malformed tree reference '' @ text))
      else Inr \<lparr>MedicalSubjectHeading = parts ! 0,
                TreeLocation = Split (parts ! 1) CHR ''.''\<rparr>)"

section \<open>Building the tree\<close>

text \<open>\<open>Node.addChild\<close> writes into the map \<open>n.Children\<close>, which the node in the parent's
  map shares: the model returns the node with its new children, and the caller stores it
  back under the same key.  \<open>location[0]\<close> on an empty slice panics.\<close>

fun addChild :: "Node \<Rightarrow> string list \<Rightarrow> TreeReference \<Rightarrow> 64 word \<Rightarrow> error + Node" where
  "addChild n [] ref depth = Inl IndexOutOfRange"
| "addChild n (s # rest) ref depth =
     (case map_of (Children n) s of
        Some innerNode \<Rightarrow>
          (case addChild innerNode rest ref (depth + 1) of
             Inl e \<Rightarrow> Inl e
           | Inr innerNode' \<Rightarrow>
               Inr (Node (Reference n) (AList.update s innerNode' (Children n)) (Depth n)))
      | None \<Rightarrow>
          Inr (Node (Reference n) (Children n @ [(s, Node ref [] depth)]) (Depth n)))"

text \<open>The body of the scanner loop up to the tree insertion (lines 64 to 73).\<close>

definition addFirstLayer :: "Tree \<Rightarrow> TreeReference \<Rightarrow> error + Tree" where
  "addFirstLayer t ref =
     (case TreeLocation ref of
        [] \<Rightarrow> Inl IndexOutOfRange
      | s # rest \<Rightarrow>
          (case map_of t s of
             None \<Rightarrow> Inr (t @ [(s, Node ref [] 0)])
           | Some n \<Rightarrow>
               (case addChild n rest ref 0 of
                  Inl e \<Rightarrow> Inl e
                | Inr n' \<Rightarrow> Inr (AList.update s n' t))))"

text \<open>Lines 76 and 77: \<open>append\<close> to the slice stored under the lower-cased heading, the
  nil slice when the key is new.\<close>

definition remember :: "(string \<rightharpoonup> string list list) \<Rightarrow> TreeReference
    \<Rightarrow> (string \<rightharpoonup> string list list)" where
  "remember locs ref =
     (let normalisedHeading = ToLower (MedicalSubjectHeading ref) in
      locs(normalisedHeading \<mapsto>
        (case locs normalisedHeading of None \<Rightarrow> [] | Some ps \<Rightarrow> ps) @ [TreeLocation ref]))"

text \<open>The scanner loop over the lines of the reader.\<close>

fun scanLines :: "MeSHTree \<Rightarrow> string list \<Rightarrow> error + MeSHTree" where
  "scanLines tree [] = Inr tree"
| "scanLines tree (text # rest) =
     (case treeReferenceFromString text of
        Inl err \<Rightarrow> Inl err
      | Inr ref \<Rightarrow>
          (case addFirstLayer (Tree tree) ref of
             Inl e \<Rightarrow> Inl e
           | Inr t' \<Rightarrow>
               scanLines \<lparr>Tree = t', Locations = remember (Locations tree) ref\<rparr> rest))"

definition MeSHTreeFromReader :: "string list \<Rightarrow> error + MeSHTree" where
  "MeSHTreeFromReader lines = scanLines \<lparr>Tree = [], Locations = Map.empty\<rparr> lines"

section \<open>Queries\<close>

fun At :: "Tree \<Rightarrow> string list \<Rightarrow> Tree" where
  "At t [] = t"
| "At t (s # rest) =
     (case map_of t s of Some node \<Rightarrow> At (Children node) rest | None \<Rightarrow> [])"

fun Terms :: "Tree \<Rightarrow> string list" where
  "Terms [] = []"
| "Terms ((k, Node r c d) # rest) = MedicalSubjectHeading r # Terms c @ Terms rest"

definition Explode :: "MeSHTree \<Rightarrow> string \<Rightarrow> string list" where
  "Explode t term =
     (case Locations t (ToLower term) of
        None \<Rightarrow> []
      | Some locations \<Rightarrow> foldl (\<lambda>terms location. terms @ Terms (At (Tree t) location)) [] locations)"

text \<open>\<open>int64(len(location))\<close>: a Go length is a non-negative \<open>int\<close> and converts to
  \<open>int64\<close> without loss.\<close>

definition Depth_of :: "MeSHTree \<Rightarrow> string \<Rightarrow> int" where
  "Depth_of t term =
     (case Locations t (ToLower term) of
        Some (location # _) \<Rightarrow> int (length location)
      | _ \<Rightarrow> 0)"

definition Contains :: "MeSHTree \<Rightarrow> string \<Rightarrow> bool" where
  "Contains t term = (case Locations t (ToLower term) of Some _ \<Rightarrow> True | None \<Rightarrow> False)"

text \<open>The inner loop of \<open>Parents\<close> (lines 129 to 135): it reads the candidate's
  \<open>TreeLocation\<close> at every index of \<open>loc\<close> until the first difference, and panics where
  that index is out of range.\<close>

fun sameLocation :: "string list \<Rightarrow> string list \<Rightarrow> error + bool" where
  "sameLocation [] other = Inr True"
| "sameLocation (v # vs) [] = Inl IndexOutOfRange"
| "sameLocation (v # vs) (x # xs) = (if v \<noteq> x then Inr False else sameLocation vs xs)"

text \<open>The loop over the candidate parents (lines 126 to 140).\<close>

fun parentsIn :: "string list \<Rightarrow> Tree \<Rightarrow> string list \<Rightarrow> error + string list" where
  "parentsIn loc [] parents = Inr parents"
| "parentsIn loc ((k, parent) # rest) parents =
     (case sameLocation loc (TreeLocation (Reference parent)) of
        Inl e \<Rightarrow> Inl e
      | Inr eq \<Rightarrow>
          parentsIn loc rest
            (if eq then parents @ [MedicalSubjectHeading (Reference parent)] else parents))"

text \<open>The loop over the locations of the term (lines 121 to 142).\<close>

fun parentsLoop :: "Tree \<Rightarrow> string list list \<Rightarrow> string list \<Rightarrow> error + string list" where
  "parentsLoop t [] parents = Inr parents"
| "parentsLoop t (location # rest) parents =
     (if length location > 2 then
        (case parentsIn (take (length location - 1) location)
                (At t (take (length location - 2) location)) parents of
           Inl e \<Rightarrow> Inl e
         | Inr parents' \<Rightarrow> parentsLoop t rest parents')
      else parentsLoop t rest parents)"

definition Parents :: "MeSHTree \<Rightarrow> string \<Rightarrow> error + string list" where
  "Parents t term =
     (case Locations t (ToLower term) of
        None \<Rightarrow> Inr []
      | Some locations \<Rightarrow> parentsLoop (Tree t) locations [])"

text \<open>\<open>Reference\<close>: each location is printed as \<open>term;seg.seg\<close> and parsed again; a
  failure of that parse is a panic carrying the parser's error.  The nil slice of an
  unknown term is the empty list.\<close>

fun referenceLoop :: "string \<Rightarrow> string list list \<Rightarrow> TreeReference list
    \<Rightarrow> error + TreeReference list" where
  "referenceLoop term [] references = Inr references"
| "referenceLoop term (location # rest) references =
     (case treeReferenceFromString (term @ '';'' @ Join location CHR ''.'') of
        Inl err \<Rightarrow> Inl err
      | Inr ref \<Rightarrow> referenceLoop term rest (references @ [ref]))"

definition Reference_of :: "MeSHTree \<Rightarrow> string \<Rightarrow> error + TreeReference list" where
  "Reference_of t term =
     (case Locations t (ToLower term) of
        None \<Rightarrow> Inr []
      | Some locations \<Rightarrow> referenceLoop term locations [])"

section \<open>Notions of the specification\<close>

text \<open>The node a path resolves to, walking its segments in order from the root:
  \<open>At\<close> gives the children map at the path without its last segment, the last
  segment is looked up there.  The empty path names no node.\<close>

definition nodeAt :: "Tree \<Rightarrow> string list \<Rightarrow> Node option" where
  "nodeAt t p = (if p = [] then None else map_of (At t (butlast p)) (last p))"

definition refAt :: "Tree \<Rightarrow> string list \<Rightarrow> TreeReference option" where
  "refAt t p = map_option Reference (nodeAt t p)"

text \<open>Every level of the tree is a map: no key occurs twice in a level.\<close>

fun distinctKeys :: "Tree \<Rightarrow> bool" where
  "distinctKeys [] = True"
| "distinctKeys ((k, Node r c d) # rest) =
     (k \<notin> fst ` set rest \<and> distinctKeys c \<and> distinctKeys rest)"

text \<open>Every entry below the position \<open>pre\<close> stores a reference whose location starts
  with the entry's own position.\<close>

fun wellPlaced :: "string list \<Rightarrow> Tree \<Rightarrow> bool" where
  "wellPlaced pre [] = True"
| "wellPlaced pre ((k, Node r c d) # rest) =
     (prefix (pre @ [k]) (TreeLocation r) \<and> wellPlaced (pre @ [k]) c \<and> wellPlaced pre rest)"

text \<open>The positions of all entries of a tree, each entry once: the key of an entry, then
  the positions below it, then the positions of the entries after it.\<close>

fun pathsOf :: "Tree \<Rightarrow> string list list" where
  "pathsOf [] = []"
| "pathsOf ((k, Node r c d) # rest) = [k] # map ((#) k) (pathsOf c) @ pathsOf rest"

text \<open>The order of the lines that the tree numbers of MeSH come in: every line parses, and
  its location without the last segment is empty or the location of an earlier line.\<close>

fun parentsFirst :: "string list list \<Rightarrow> string list \<Rightarrow> bool" where
  "parentsFirst seen [] = True"
| "parentsFirst seen (text # rest) =
     (case treeReferenceFromString text of
        Inl err \<Rightarrow> False
      | Inr ref \<Rightarrow>
          (length (TreeLocation ref) = 1 \<or> butlast (TreeLocation ref) \<in> set seen)
          \<and> parentsFirst (TreeLocation ref # seen) rest)"

text \<open>The locations that the lines of the input give a key, in the order of the lines.\<close>

definition recorded :: "string list \<Rightarrow> string \<Rightarrow> string list list" where
  "recorded lines k =
     concat (map (\<lambda>line.
        case treeReferenceFromString line of
          Inl err \<Rightarrow> []
        | Inr ref \<Rightarrow> if ToLower (MedicalSubjectHeading ref) = k then [TreeLocation ref] else [])
      lines)"

text \<open>What the parser guarantees of every recorded key and location: a key holds at least
  one location and no \<open>;\<close>; a location has at least one segment, and no segment holds a
  \<open>;\<close> or a \<open>.\<close>.\<close>

definition goodLocations :: "(string \<rightharpoonup> string list list) \<Rightarrow> bool" where
  "goodLocations locs =
     (\<forall>k ps. locs k = Some ps \<longrightarrow>
        ps \<noteq> [] \<and> CHR '';'' \<notin> set k
        \<and> (\<forall>p\<in>set ps. p \<noteq> []
              \<and> (\<forall>seg\<in>set p. CHR '';'' \<notin> set seg \<and> CHR ''.'' \<notin> set seg)))"

section \<open>Splitting and joining\<close>

lemma Split_not_Nil: "Split s sep \<noteq> []"
  by (induction s) (auto split: list.splits)

lemma length_Split: "length (Split s sep) = Suc (count_list s sep)"
  by (induction s) (auto split: list.splits simp: Split_not_Nil)

lemma Split_no_sep: "p \<in> set (Split s sep) \<Longrightarrow> sep \<notin> set p"
  by (induction s arbitrary: p) (auto split: list.splits if_splits)

lemma Split_without_sep: "sep \<notin> set s \<Longrightarrow> Split s sep = [s]"
  by (induction s) auto

lemma Split_append_sep: "sep \<notin> set a \<Longrightarrow> Split (a @ sep # b) sep = a # Split b sep"
  by (induction a) auto

lemma Join_Cons: "ps \<noteq> [] \<Longrightarrow> Join (p # ps) sep = p @ sep # Join ps sep"
  by (cases ps) auto

lemma Join_push: "Join ((c # p) # ps) sep = c # Join (p # ps) sep"
  by (cases ps) auto

lemma Join_Split: "Join (Split s sep) sep = s"
  by (induction s) (auto split: list.splits simp: Split_not_Nil Join_Cons Join_push)

lemma Split_Join:
  "ps \<noteq> [] \<Longrightarrow> \<forall>p\<in>set ps. sep \<notin> set p \<Longrightarrow> Split (Join ps sep) sep = ps"
proof (induction ps sep rule: Join.induct)
  case (3 a b rest sep)
  then show ?case by (simp add: Split_append_sep)
qed (auto simp: Split_without_sep)

lemma Split_two:
  "length (Split s sep) = 2 \<Longrightarrow>
     Split s sep = [takeWhile (\<lambda>c. c \<noteq> sep) s, tl (dropWhile (\<lambda>c. c \<noteq> sep) s)]
     \<and> sep \<notin> set (tl (dropWhile (\<lambda>c. c \<noteq> sep) s))"
proof (induction s)
  case Nil
  then show ?case by simp
next
  case (Cons c cs)
  show ?case
  proof (cases "c = sep")
    case True
    with Cons.prems have "count_list cs sep = 0" by (simp add: length_Split)
    then have "sep \<notin> set cs" by (simp add: count_list_0_iff)
    with True show ?thesis by (simp add: Split_without_sep)
  next
    case False
    with Cons show ?thesis by (auto split: list.splits)
  qed
qed

lemma parse_ok_iff:
  "(\<exists>r. treeReferenceFromString line = Inr r) \<longleftrightarrow> length (Split line CHR '';'') = 2"
  by (simp add: treeReferenceFromString_def Let_def)

lemma parse_Inr:
  assumes "treeReferenceFromString line = Inr r"
  shows "length (Split line CHR '';'') = 2"
    and "MedicalSubjectHeading r = takeWhile (\<lambda>c. c \<noteq> CHR '';'') line"
    and "TreeLocation r = Split (tl (dropWhile (\<lambda>c. c \<noteq> CHR '';'') line)) CHR ''.''"
proof -
  show l: "length (Split line CHR '';'') = 2"
    using assms by (auto simp: treeReferenceFromString_def Let_def split: if_splits)
  from Split_two[OF l] assms
  show "MedicalSubjectHeading r = takeWhile (\<lambda>c. c \<noteq> CHR '';'') line"
    and "TreeLocation r = Split (tl (dropWhile (\<lambda>c. c \<noteq> CHR '';'') line)) CHR ''.''"
    by (auto simp: treeReferenceFromString_def Let_def split: if_splits)
qed

lemma parse_Inl:
  "length (Split line CHR '';'') \<noteq> 2 \<Longrightarrow>
     treeReferenceFromString line = Inl (FormatError (''malformed tree reference '' @ line))"
  by (simp add: treeReferenceFromString_def Let_def)

text \<open>
  Claim C5.  For every input line, \<open>treeReferenceFromString\<close> returns a
  \<open>TreeReference\<close> exactly when the line splits into exactly two parts on the
  separator \<open>;\<close>; for any other number of parts it fails with the error whose message
  carries the offending line.
\<close>

theorem treeReferenceFromString_two_parts:
  "((\<exists>ref. treeReferenceFromString line = Inr ref) \<longleftrightarrow> length (Split line CHR '';'') = 2)
   \<and> (length (Split line CHR '';'') \<noteq> 2 \<longrightarrow>
        treeReferenceFromString line =
          Inl (FormatError (''malformed tree reference '' @ line)))"
  using parse_ok_iff parse_Inl by blast

theorem treeReferenceFromString_two_parts_witness:
  "length (Split ''X;1;2'' CHR '';'') \<noteq> 2
   \<and> treeReferenceFromString ''X;1;2'' =
       Inl (FormatError ''malformed tree reference X;1;2'')
   \<and> length (Split ''A;1.2'' CHR '';'') = 2
   \<and> (\<exists>ref. treeReferenceFromString ''A;1.2'' = Inr ref)"
  using treeReferenceFromString_two_parts [of "''X;1;2''"]
    treeReferenceFromString_two_parts [of "''A;1.2''"]
  by simp

text \<open>
  Claim C8.  For every well-formed line the parser round-trips: the returned heading is the
  part before the separator, joining the returned segments with \<open>.\<close> gives back the part
  after the separator, and heading, separator and joined path together are the line.
\<close>

theorem treeReferenceFromString_round_trip:
  assumes "treeReferenceFromString line = Inr ref"
  shows "MedicalSubjectHeading ref = takeWhile (\<lambda>c. c \<noteq> CHR '';'') line
    \<and> Join (TreeLocation ref) CHR ''.'' = tl (dropWhile (\<lambda>c. c \<noteq> CHR '';'') line)
    \<and> MedicalSubjectHeading ref @ '';'' @ Join (TreeLocation ref) CHR ''.'' = line"
proof -
  let ?rest = "dropWhile (\<lambda>c. c \<noteq> CHR '';'') line"
  from parse_Inr[OF assms] have
    two: "length (Split line CHR '';'') = 2" and
    h: "MedicalSubjectHeading ref = takeWhile (\<lambda>c. c \<noteq> CHR '';'') line" and
    l: "TreeLocation ref = Split (tl ?rest) CHR ''.''"
    by auto
  from two have "count_list line CHR '';'' \<noteq> 0" by (simp add: length_Split)
  then have "CHR '';'' \<in> set line" by (simp add: count_list_0_iff)
  then have ne: "?rest \<noteq> []" by simp
  then have "hd ?rest = CHR '';''" using hd_dropWhile[of "\<lambda>c. c \<noteq> CHR '';''" line] by simp
  with ne have "?rest = CHR '';'' # tl ?rest" by (cases ?rest) auto
  then have "line = takeWhile (\<lambda>c. c \<noteq> CHR '';'') line @ CHR '';'' # tl ?rest"
    using takeWhile_dropWhile_id[of "\<lambda>c. c \<noteq> CHR '';''" line] by simp
  with h l show ?thesis by (simp add: Join_Split)
qed

theorem treeReferenceFromString_round_trip_witness:
  "treeReferenceFromString ''Neuralgia;C10.668'' =
     Inr \<lparr>MedicalSubjectHeading = ''Neuralgia'', TreeLocation = [''C10'', ''668'']\<rparr>
   \<and> Join [''C10'', ''668''] CHR ''.'' = ''C10.668''
   \<and> ''Neuralgia'' @ '';'' @ Join [''C10'', ''668''] CHR ''.'' = ''Neuralgia;C10.668''"
  using treeReferenceFromString_round_trip [of "''Neuralgia;C10.668''"
    "\<lparr>MedicalSubjectHeading = ''Neuralgia'', TreeLocation = [''C10'', ''668'']\<rparr>"]
  by (simp add: treeReferenceFromString_def)

section \<open>References along a path\<close>

lemma refAt_Nil: "refAt t [] = None"
  by (simp add: refAt_def nodeAt_def)

lemma nodeAt_Cons:
  "nodeAt t (k # r) =
     (case map_of t k of None \<Rightarrow> None
      | Some n \<Rightarrow> if r = [] then Some n else nodeAt (Children n) r)"
  by (cases r) (auto simp: nodeAt_def split: option.splits)

lemma refAt_Cons:
  "refAt t (k # r) =
     (case map_of t k of None \<Rightarrow> None
      | Some n \<Rightarrow> if r = [] then Some (Reference n) else refAt (Children n) r)"
  by (simp add: refAt_def nodeAt_Cons split: option.splits)

lemma map_of_snoc_fresh:
  "map_of t s = None \<Longrightarrow> map_of (t @ [(s, v)]) k = (if k = s then Some v else map_of t k)"
  by (auto simp: map_add_def split: option.splits)

lemma refAt_empty: "refAt [] q = None"
  by (cases q) (simp_all add: refAt_Nil refAt_Cons)

lemma refAt_snoc_fresh:
  assumes "map_of t s = None"
  shows "refAt (t @ [(s, Node ref [] d)]) q = (if q = [s] then Some ref else refAt t q)"
proof (cases q)
  case Nil
  then show ?thesis by (simp add: refAt_Nil)
next
  case (Cons k r)
  then show ?thesis
    using assms by (auto simp: refAt_Cons refAt_empty map_of_snoc_fresh split: option.splits)
qed

lemma refAt_update:
  assumes "map_of t s = Some inner" "Reference inner' = Reference inner"
  shows "refAt (AList.update s inner' t) q =
     (case q of [] \<Rightarrow> None
      | k # r \<Rightarrow> if k = s \<and> r \<noteq> [] then refAt (Children inner') r else refAt t q)"
  using assms by (cases q) (auto simp: refAt_Nil refAt_Cons update_conv' split: option.splits)

lemma addChild_Reference: "addChild n loc ref d = Inr n' \<Longrightarrow> Reference n' = Reference n"
  by (cases loc) (auto split: option.splits sum.splits)

lemma addChild_refAt:
  "addChild n loc ref d = Inr n' \<Longrightarrow>
     \<exists>j<length loc. refAt (Children n) (take (Suc j) loc) = None
       \<and> (\<forall>i<j. refAt (Children n) (take (Suc i) loc) \<noteq> None)
       \<and> (\<forall>q. refAt (Children n') q =
                (if q = take (Suc j) loc then Some ref else refAt (Children n) q))"
proof (induction n loc ref d arbitrary: n' rule: addChild.induct)
  case (1 n ref depth)
  then show ?case by simp
next
  case (2 n s rest ref depth)
  show ?case
  proof (cases "map_of (Children n) s")
    case None
    with "2.prems" have n': "Children n' = Children n @ [(s, Node ref [] depth)]"
      by auto
    have "refAt (Children n) (take (Suc 0) (s # rest)) = None"
      using None by (simp add: refAt_Cons)
    moreover have "\<forall>q. refAt (Children n') q =
        (if q = take (Suc 0) (s # rest) then Some ref else refAt (Children n) q)"
      using None by (simp add: n' refAt_snoc_fresh)
    ultimately show ?thesis by (intro exI[of _ 0]) simp
  next
    case (Some inner)
    with "2.prems" obtain inner' where
      step: "addChild inner rest ref (depth + 1) = Inr inner'" and
      n': "Children n' = AList.update s inner' (Children n)"
      by (auto split: sum.splits)
    from "2.IH"[OF Some step] obtain j where
      j: "j < length rest" and
      none: "refAt (Children inner) (take (Suc j) rest) = None" and
      below: "\<forall>i<j. refAt (Children inner) (take (Suc i) rest) \<noteq> None" and
      eq: "\<forall>q. refAt (Children inner') q =
            (if q = take (Suc j) rest then Some ref else refAt (Children inner) q)"
      by blast
    have same: "Reference inner' = Reference inner"
      using step by (rule addChild_Reference)
    have ne: "take (Suc j) rest \<noteq> []" using j by (cases rest) auto
    have a: "refAt (Children n) (take (Suc (Suc j)) (s # rest)) = None"
      using Some none ne by (simp add: refAt_Cons)
    have b: "\<forall>i<Suc j. refAt (Children n) (take (Suc i) (s # rest)) \<noteq> None"
    proof (intro allI impI)
      fix i assume "i < Suc j"
      show "refAt (Children n) (take (Suc i) (s # rest)) \<noteq> None"
      proof (cases i)
        case 0
        then show ?thesis using Some by (simp add: refAt_Cons)
      next
        case (Suc i')
        with \<open>i < Suc j\<close> have "i' < j" by simp
        with below have "refAt (Children inner) (take (Suc i') rest) \<noteq> None" by blast
        moreover have "take (Suc i') rest \<noteq> []" using j \<open>i' < j\<close> by (cases rest) auto
        ultimately show ?thesis using Some Suc by (simp add: refAt_Cons)
      qed
    qed
    have c: "\<forall>q. refAt (Children n') q =
        (if q = take (Suc (Suc j)) (s # rest) then Some ref else refAt (Children n) q)"
    proof
      fix q
      show "refAt (Children n') q =
        (if q = take (Suc (Suc j)) (s # rest) then Some ref else refAt (Children n) q)"
      proof (cases q)
        case Nil
        then show ?thesis by (simp add: refAt_Nil)
      next
        case (Cons k r)
        show ?thesis
        proof (cases "k = s \<and> r \<noteq> []")
          case True
          have "refAt (Children n') q = refAt (Children inner') r"
            using True Cons by (simp add: n' refAt_update[OF Some same])
          also have "\<dots> = (if r = take (Suc j) rest then Some ref
                            else refAt (Children inner) r)"
            using eq by simp
          also have "refAt (Children inner) r = refAt (Children n) q"
            using True Cons Some by (simp add: refAt_Cons)
          finally show ?thesis using True Cons by simp
        next
          case False
          then show ?thesis
            using Cons Some ne by (auto simp: n' refAt_update[OF Some same])
        qed
      qed
    qed
    from a b c j show ?thesis by (intro exI[of _ "Suc j"]) simp
  qed
qed

section \<open>Positions of stored references\<close>

lemma wellPlaced_append:
  "wellPlaced pre (t @ u) = (wellPlaced pre t \<and> wellPlaced pre u)"
  by (induction pre t rule: wellPlaced.induct) auto

lemma wellPlaced_entry:
  "wellPlaced pre t \<Longrightarrow> (k, n) \<in> set t \<Longrightarrow>
     prefix (pre @ [k]) (TreeLocation (Reference n)) \<and> wellPlaced (pre @ [k]) (Children n)"
  by (induction pre t rule: wellPlaced.induct) auto

lemma wellPlaced_update:
  "wellPlaced pre t \<Longrightarrow> prefix (pre @ [s]) (TreeLocation (Reference x)) \<Longrightarrow>
     wellPlaced (pre @ [s]) (Children x) \<Longrightarrow> wellPlaced pre (AList.update s x t)"
proof (induction pre t rule: wellPlaced.induct)
  case (1 pre)
  then show ?case by (cases x) simp
next
  case (2 pre k r c d rest)
  then show ?case by (cases x) auto
qed

lemma addChild_wellPlaced:
  "addChild n loc ref d = Inr n' \<Longrightarrow> wellPlaced pre (Children n) \<Longrightarrow>
     prefix (pre @ loc) (TreeLocation ref) \<Longrightarrow> wellPlaced pre (Children n')"
proof (induction n loc ref d arbitrary: n' pre rule: addChild.induct)
  case (1 n ref depth)
  then show ?case by simp
next
  case (2 n s rest ref depth)
  show ?case
  proof (cases "map_of (Children n) s")
    case None
    with "2.prems"(1) have "Children n' = Children n @ [(s, Node ref [] depth)]" by auto
    moreover have "prefix (pre @ [s]) (TreeLocation ref)"
      using "2.prems"(3) by (metis append_Cons append_Nil append_assoc append_prefixD)
    ultimately show ?thesis using "2.prems"(2) by (simp add: wellPlaced_append)
  next
    case (Some inner)
    with "2.prems"(1) obtain inner' where
      step: "addChild inner rest ref (depth + 1) = Inr inner'" and
      n': "Children n' = AList.update s inner' (Children n)"
      by (auto split: sum.splits)
    from Some have "(s, inner) \<in> set (Children n)" by (rule map_of_SomeD)
    with "2.prems"(2) have
      p: "prefix (pre @ [s]) (TreeLocation (Reference inner))" and
      w: "wellPlaced (pre @ [s]) (Children inner)"
      using wellPlaced_entry by blast+
    have "wellPlaced (pre @ [s]) (Children inner')"
      using "2.IH"[OF Some step w] "2.prems"(3) by simp
    moreover have "Reference inner' = Reference inner"
      using step by (rule addChild_Reference)
    ultimately show ?thesis
      using p "2.prems"(2) by (simp add: n' wellPlaced_update)
  qed
qed

lemma addFirstLayer_wellPlaced:
  assumes "addFirstLayer t ref = Inr t'" "wellPlaced [] t"
  shows "wellPlaced [] t'"
proof (cases "TreeLocation ref")
  case Nil
  with assms show ?thesis by (simp add: addFirstLayer_def)
next
  case (Cons s rest)
  show ?thesis
  proof (cases "map_of t s")
    case None
    with assms Cons show ?thesis by (auto simp: addFirstLayer_def wellPlaced_append)
  next
    case (Some n)
    with assms(1) Cons obtain n' where
      step: "addChild n rest ref 0 = Inr n'" and t': "t' = AList.update s n' t"
      by (auto simp: addFirstLayer_def split: sum.splits)
    from Some have "(s, n) \<in> set t" by (rule map_of_SomeD)
    with assms(2) have
      p: "prefix ([] @ [s]) (TreeLocation (Reference n))" and
      w: "wellPlaced ([] @ [s]) (Children n)"
      using wellPlaced_entry by blast+
    have "wellPlaced ([] @ [s]) (Children n')"
      using addChild_wellPlaced[OF step w] Cons by simp
    moreover have "Reference n' = Reference n"
      using step by (rule addChild_Reference)
    ultimately show ?thesis
      using p assms(2) wellPlaced_update[of "[]" t s n'] by (simp add: t')
  qed
qed

lemma wellPlaced_At:
  "wellPlaced pre t \<Longrightarrow> (k, n) \<in> set (At t q) \<Longrightarrow>
     prefix (pre @ q @ [k]) (TreeLocation (Reference n))"
proof (induction q arbitrary: pre t)
  case Nil
  then show ?case using wellPlaced_entry by simp
next
  case (Cons s q)
  show ?case
  proof (cases "map_of t s")
    case None
    with Cons.prems show ?thesis by simp
  next
    case (Some node)
    then have "(s, node) \<in> set t" by (rule map_of_SomeD)
    with Cons.prems(1) have "wellPlaced (pre @ [s]) (Children node)"
      using wellPlaced_entry by blast
    from Cons.IH[OF this] Cons.prems(2) Some show ?thesis by simp
  qed
qed

section \<open>Keys of a level\<close>

lemma distinctKeys_append:
  "distinctKeys (t @ u) =
     (distinctKeys t \<and> distinctKeys u \<and> fst ` set t \<inter> fst ` set u = {})"
  by (induction t rule: distinctKeys.induct) auto

lemma distinctKeys_entry:
  "distinctKeys t \<Longrightarrow> (k, n) \<in> set t \<Longrightarrow> distinctKeys (Children n)"
  by (induction t rule: distinctKeys.induct) auto

lemma distinctKeys_update:
  "distinctKeys t \<Longrightarrow> distinctKeys (Children x) \<Longrightarrow> distinctKeys (AList.update s x t)"
proof (induction t rule: distinctKeys.induct)
  case 1
  then show ?case by (cases x) simp
next
  case (2 k r c d rest)
  then show ?case by (cases x) (auto simp: dom_update)
qed

lemma addChild_distinctKeys:
  "addChild n loc ref d = Inr n' \<Longrightarrow> distinctKeys (Children n) \<Longrightarrow>
     distinctKeys (Children n')"
proof (induction n loc ref d arbitrary: n' rule: addChild.induct)
  case (1 n ref depth)
  then show ?case by simp
next
  case (2 n s rest ref depth)
  show ?case
  proof (cases "map_of (Children n) s")
    case None
    with "2.prems"(1) have "Children n' = Children n @ [(s, Node ref [] depth)]" by auto
    moreover from None have "s \<notin> fst ` set (Children n)" by (simp add: map_of_eq_None_iff)
    ultimately show ?thesis using "2.prems"(2) by (simp add: distinctKeys_append)
  next
    case (Some inner)
    with "2.prems"(1) obtain inner' where
      step: "addChild inner rest ref (depth + 1) = Inr inner'" and
      n': "Children n' = AList.update s inner' (Children n)"
      by (auto split: sum.splits)
    from Some have "(s, inner) \<in> set (Children n)" by (rule map_of_SomeD)
    with "2.prems"(2) have "distinctKeys (Children inner)" by (rule distinctKeys_entry)
    from "2.IH"[OF Some step this] "2.prems"(2) show ?thesis
      by (simp add: n' distinctKeys_update)
  qed
qed

lemma addFirstLayer_distinctKeys:
  assumes "addFirstLayer t ref = Inr t'" "distinctKeys t"
  shows "distinctKeys t'"
proof (cases "TreeLocation ref")
  case Nil
  with assms show ?thesis by (simp add: addFirstLayer_def)
next
  case (Cons s rest)
  show ?thesis
  proof (cases "map_of t s")
    case None
    then have "s \<notin> fst ` set t" by (simp add: map_of_eq_None_iff)
    with None assms Cons show ?thesis
      by (auto simp: addFirstLayer_def distinctKeys_append)
  next
    case (Some n)
    with assms(1) Cons obtain n' where
      step: "addChild n rest ref 0 = Inr n'" and t': "t' = AList.update s n' t"
      by (auto simp: addFirstLayer_def split: sum.splits)
    from Some have "(s, n) \<in> set t" by (rule map_of_SomeD)
    with assms(2) have "distinctKeys (Children n)" by (rule distinctKeys_entry)
    with step have "distinctKeys (Children n')" by (rule addChild_distinctKeys)
    with assms(2) show ?thesis by (simp add: t' distinctKeys_update)
  qed
qed

lemma distinctKeys_At: "distinctKeys t \<Longrightarrow> distinctKeys (At t q)"
proof (induction q arbitrary: t)
  case Nil
  then show ?case by simp
next
  case (Cons s q)
  show ?case
  proof (cases "map_of t s")
    case None
    then show ?thesis by simp
  next
    case (Some node)
    then have "(s, node) \<in> set t" by (rule map_of_SomeD)
    with Cons.prems have "distinctKeys (Children node)" by (rule distinctKeys_entry)
    with Cons.IH Some show ?thesis by simp
  qed
qed

section \<open>The scanner loop\<close>

lemma scanLines_invariant:
  assumes "scanLines tree lines = Inr t" and "I tree"
    and step: "\<And>tr text ref t'. I tr \<Longrightarrow> treeReferenceFromString text = Inr ref \<Longrightarrow>
      addFirstLayer (Tree tr) ref = Inr t' \<Longrightarrow>
      I \<lparr>Tree = t', Locations = remember (Locations tr) ref\<rparr>"
  shows "I t"
  using assms(1) assms(2)
proof (induction lines arbitrary: tree)
  case Nil
  then show ?case by simp
next
  case (Cons line rest)
  from Cons.prems(1) obtain ref t' where
    p: "treeReferenceFromString line = Inr ref" and
    a: "addFirstLayer (Tree tree) ref = Inr t'" and
    r: "scanLines \<lparr>Tree = t', Locations = remember (Locations tree) ref\<rparr> rest = Inr t"
    by (auto split: sum.splits)
  from step[OF Cons.prems(2) p a] Cons.IH[OF r] show ?case by blast
qed

lemma built_wellPlaced: "MeSHTreeFromReader lines = Inr t \<Longrightarrow> wellPlaced [] (Tree t)"
  unfolding MeSHTreeFromReader_def
  by (erule scanLines_invariant[where I = "\<lambda>tr. wellPlaced [] (Tree tr)"])
     (auto intro: addFirstLayer_wellPlaced)

lemma built_distinctKeys: "MeSHTreeFromReader lines = Inr t \<Longrightarrow> distinctKeys (Tree t)"
  unfolding MeSHTreeFromReader_def
  by (erule scanLines_invariant[where I = "\<lambda>tr. distinctKeys (Tree tr)"])
     (auto intro: addFirstLayer_distinctKeys)

section \<open>The recorded locations\<close>

lemma lower_byte_semicolon: "lower_byte c = CHR '';'' \<longleftrightarrow> c = CHR '';''"
proof
  assume l: "lower_byte c = CHR '';''"
  show "c = CHR '';''"
  proof (rule ccontr)
    assume n: "c \<noteq> CHR '';''"
    with l have r: "65 \<le> (of_char c :: nat)" "(of_char c :: nat) \<le> 90"
      and e: "char_of (of_char c + 32 :: nat) = CHR '';''"
      by (auto simp: lower_byte_def Let_def split: if_splits)
    from e have "(of_char (char_of (of_char c + 32 :: nat)) :: nat) = of_char CHR '';''"
      by simp
    then have "(of_char c + 32 :: nat) mod 256 = 59" by (simp add: of_char_of)
    with r show False by simp
  qed
next
  assume "c = CHR '';''"
  then show "lower_byte c = CHR '';''" by (simp add: lower_byte_def)
qed

lemma ToLower_semicolon: "CHR '';'' \<in> set (ToLower s) \<longleftrightarrow> CHR '';'' \<in> set s"
proof -
  have "CHR '';'' \<in> lower_byte ` set s \<longleftrightarrow> CHR '';'' \<in> set s"
    using lower_byte_semicolon by (metis image_iff)
  then show ?thesis by (simp add: ToLower_def)
qed

lemma Split_subset: "p \<in> set (Split s sep) \<Longrightarrow> set p \<subseteq> set s"
proof (induction s arbitrary: p)
  case Nil
  then show ?case by simp
next
  case (Cons c cs)
  obtain q qs where q: "Split cs sep = q # qs"
    using Split_not_Nil by (cases "Split cs sep") auto
  with Cons.IH have "set q \<subseteq> set cs" "\<forall>x\<in>set qs. set x \<subseteq> set cs" by auto
  with Cons.prems q show ?case by (auto split: if_splits)
qed

lemma parse_shape:
  assumes "treeReferenceFromString text = Inr ref"
  shows "CHR '';'' \<notin> set (MedicalSubjectHeading ref)"
    and "TreeLocation ref \<noteq> []"
    and "\<forall>seg\<in>set (TreeLocation ref). CHR '';'' \<notin> set seg \<and> CHR ''.'' \<notin> set seg"
proof -
  let ?rest = "tl (dropWhile (\<lambda>c. c \<noteq> CHR '';'') text)"
  from parse_Inr[OF assms] have
    two: "length (Split text CHR '';'') = 2" and
    h: "MedicalSubjectHeading ref = takeWhile (\<lambda>c. c \<noteq> CHR '';'') text" and
    l: "TreeLocation ref = Split ?rest CHR ''.''"
    by auto
  from h show "CHR '';'' \<notin> set (MedicalSubjectHeading ref)"
    by (auto dest: set_takeWhileD)
  from l show "TreeLocation ref \<noteq> []" by (simp add: Split_not_Nil)
  from Split_two[OF two] have "CHR '';'' \<notin> set ?rest" by simp
  with l show "\<forall>seg\<in>set (TreeLocation ref). CHR '';'' \<notin> set seg \<and> CHR ''.'' \<notin> set seg"
    using Split_subset Split_no_sep by fastforce
qed

lemma remember_goodLocations:
  assumes "goodLocations locs" "treeReferenceFromString text = Inr ref"
  shows "goodLocations (remember locs ref)"
proof -
  let ?h = "ToLower (MedicalSubjectHeading ref)"
  let ?old = "case locs ?h of None \<Rightarrow> [] | Some ps \<Rightarrow> ps"
  let ?good = "\<lambda>p. p \<noteq> [] \<and> (\<forall>seg\<in>set p. CHR '';'' \<notin> set seg \<and> CHR ''.'' \<notin> set seg)"
  have old: "\<forall>p\<in>set ?old. ?good p"
  proof (cases "locs ?h")
    case None
    then show ?thesis by simp
  next
    case (Some ps0)
    with assms(1) have "\<forall>p\<in>set ps0. ?good p" unfolding goodLocations_def by blast
    with Some show ?thesis by simp
  qed
  have new: "?good (TreeLocation ref)"
    using parse_shape[OF assms(2)] by blast
  have key: "CHR '';'' \<notin> set ?h"
    using parse_shape(1)[OF assms(2)] by (simp add: ToLower_semicolon)
  show ?thesis
    unfolding goodLocations_def
  proof (intro allI impI)
    fix k ps
    assume r: "remember locs ref k = Some ps"
    show "ps \<noteq> [] \<and> CHR '';'' \<notin> set k \<and> (\<forall>p\<in>set ps. ?good p)"
    proof (cases "k = ?h")
      case True
      with r have "ps = ?old @ [TreeLocation ref]" by (simp add: remember_def Let_def)
      with old new key True show ?thesis by auto
    next
      case False
      with r have "locs k = Some ps" by (simp add: remember_def Let_def)
      with assms(1) show ?thesis unfolding goodLocations_def by blast
    qed
  qed
qed

lemma built_goodLocations:
  assumes "MeSHTreeFromReader lines = Inr t"
  shows "goodLocations (Locations t)"
proof (rule scanLines_invariant[where I = "\<lambda>tr. goodLocations (Locations tr)"])
  show "scanLines \<lparr>Tree = [], Locations = Map.empty\<rparr> lines = Inr t"
    using assms by (simp add: MeSHTreeFromReader_def)
  show "goodLocations (Locations \<lparr>Tree = [], Locations = Map.empty\<rparr>)"
    by (simp add: goodLocations_def)
next
  fix tr line ref t'
  assume "goodLocations (Locations tr)" "treeReferenceFromString line = Inr ref"
  then show "goodLocations (Locations \<lparr>Tree = t', Locations = remember (Locations tr) ref\<rparr>)"
    by (simp add: remember_goodLocations)
qed

lemma scanLines_Locations:
  "scanLines tree lines = Inr t \<Longrightarrow>
     Locations t k =
       (if recorded lines k = [] then Locations tree k
        else Some ((case Locations tree k of None \<Rightarrow> [] | Some ps \<Rightarrow> ps) @ recorded lines k))"
proof (induction lines arbitrary: tree)
  case Nil
  then show ?case by (simp add: recorded_def)
next
  case (Cons line rest)
  from Cons.prems obtain ref t' where
    p: "treeReferenceFromString line = Inr ref" and
    r: "scanLines \<lparr>Tree = t', Locations = remember (Locations tree) ref\<rparr> rest = Inr t"
    by (auto split: sum.splits)
  have split: "recorded (line # rest) k =
      (if ToLower (MedicalSubjectHeading ref) = k then [TreeLocation ref] else [])
      @ recorded rest k"
    using p by (simp add: recorded_def)
  from Cons.IH[OF r] show ?case
    by (auto simp: split remember_def Let_def split: option.splits)
qed

lemma built_Locations:
  "MeSHTreeFromReader lines = Inr t \<Longrightarrow>
     Locations t k = (if recorded lines k = [] then None else Some (recorded lines k))"
  unfolding MeSHTreeFromReader_def by (drule scanLines_Locations[where k = k]) simp

lemma built_projr:
  "\<not> isl (MeSHTreeFromReader lines) \<Longrightarrow>
     MeSHTreeFromReader lines = Inr (projr (MeSHTreeFromReader lines))"
  by simp

section \<open>Depth\<close>

text \<open>
  Claim C7.  For every built index and every term, the locations stored under the
  lower-cased term are the locations of the lines with that lower-cased heading, in the
  order of the lines; \<open>Depth\<close> returns the number of segments of the first of them when
  the term is a key of \<open>Locations\<close>, and 0 when it is not.
\<close>

theorem Depth_first_path:
  assumes "MeSHTreeFromReader lines = Inr t"
  shows "Locations t (ToLower term) =
       (if recorded lines (ToLower term) = [] then None
        else Some (recorded lines (ToLower term)))
    \<and> Depth_of t term =
       (case recorded lines (ToLower term) of [] \<Rightarrow> 0 | p # ps \<Rightarrow> int (length p))"
proof -
  note l = built_Locations[OF assms, of "ToLower term"]
  then show ?thesis
    by (cases "recorded lines (ToLower term)") (simp_all add: Depth_of_def)
qed

theorem Depth_first_path_witness:
  "MeSHTreeFromReader [''A;1'', ''B;1.1'', ''C;1.1.1'', ''c;2'']
     = Inr (projr (MeSHTreeFromReader [''A;1'', ''B;1.1'', ''C;1.1.1'', ''c;2'']))
   \<and> Depth_of (projr (MeSHTreeFromReader [''A;1'', ''B;1.1'', ''C;1.1.1'', ''c;2''])) ''C'' = 3
   \<and> Depth_of (projr (MeSHTreeFromReader [''A;1'', ''B;1.1'', ''C;1.1.1'', ''c;2'']))
        ''unknown'' = 0"
proof -
  let ?L = "[''A;1'', ''B;1.1'', ''C;1.1.1'', ''c;2'']"
  let ?T = "projr (MeSHTreeFromReader ?L)"
  have "\<not> isl (MeSHTreeFromReader ?L)" by code_simp
  then have h: "MeSHTreeFromReader ?L = Inr ?T" by (rule built_projr)
  have rc: "recorded ?L (ToLower ''C'') = [[''1'', ''1'', ''1''], [''2'']]" by code_simp
  have ru: "recorded ?L (ToLower ''unknown'') = []" by code_simp
  from Depth_first_path[OF h, of "''C''"] rc have "Depth_of ?T ''C'' = 3" by simp
  moreover from Depth_first_path[OF h, of "''unknown''"] ru
  have "Depth_of ?T ''unknown'' = 0" by simp
  ultimately show ?thesis using h by blast
qed

section \<open>Reference\<close>

lemma Join_subset: "set (Join ps sep) \<subseteq> insert sep (\<Union>p\<in>set ps. set p)"
  by (induction ps sep rule: Join.induct) auto

lemma parse_printed:
  assumes "CHR '';'' \<notin> set term" "CHR '';'' \<notin> set s"
  shows "treeReferenceFromString (term @ '';'' @ s) =
     Inr \<lparr>MedicalSubjectHeading = term, TreeLocation = Split s CHR ''.''\<rparr>"
proof -
  have "Split (term @ CHR '';'' # s) CHR '';'' = [term, s]"
    using assms by (simp add: Split_append_sep Split_without_sep)
  then show ?thesis by (simp add: treeReferenceFromString_def)
qed

lemma referenceLoop_ok:
  assumes "CHR '';'' \<notin> set term"
    and "\<forall>p\<in>set ps. p \<noteq> [] \<and> (\<forall>seg\<in>set p. CHR '';'' \<notin> set seg \<and> CHR ''.'' \<notin> set seg)"
  shows "referenceLoop term ps acc =
     Inr (acc @ map (\<lambda>p. \<lparr>MedicalSubjectHeading = term, TreeLocation = p\<rparr>) ps)"
  using assms(2)
proof (induction ps arbitrary: acc)
  case Nil
  then show ?case by simp
next
  case (Cons p ps)
  then have ne: "p \<noteq> []" and segs: "\<forall>seg\<in>set p. CHR '';'' \<notin> set seg \<and> CHR ''.'' \<notin> set seg"
    by auto
  have "CHR '';'' \<notin> set (Join p CHR ''.'')"
    using segs Join_subset[of p "CHR ''.''"] by auto
  then have "treeReferenceFromString (term @ '';'' @ Join p CHR ''.'') =
      Inr \<lparr>MedicalSubjectHeading = term, TreeLocation = Split (Join p CHR ''.'') CHR ''.''\<rparr>"
    using assms(1) by (rule parse_printed[rotated])
  moreover have "Split (Join p CHR ''.'') CHR ''.'' = p"
    using ne segs by (simp add: Split_Join)
  ultimately show ?case using Cons by simp
qed

text \<open>
  Claim C9.  For every built index and every query string, \<open>Reference\<close> never reaches
  its panic: no key of \<open>Locations\<close> and no segment of a recorded location holds the
  separator \<open>;\<close>, so either the lower-cased term is not a key and the nil slice is
  returned, or the term holds no \<open>;\<close> and every printed \<open>term;path\<close> parses again, to
  the term and the recorded location.
\<close>

theorem Reference_never_panics:
  assumes "MeSHTreeFromReader lines = Inr t"
  shows "(\<forall>k ps. Locations t k = Some ps \<longrightarrow>
            CHR '';'' \<notin> set k \<and> (\<forall>p\<in>set ps. \<forall>seg\<in>set p. CHR '';'' \<notin> set seg))
    \<and> (case Locations t (ToLower term) of
          None \<Rightarrow> Reference_of t term = Inr []
        | Some ps \<Rightarrow>
            Reference_of t term =
              Inr (map (\<lambda>p. \<lparr>MedicalSubjectHeading = term, TreeLocation = p\<rparr>) ps))"
proof -
  from assms have good: "goodLocations (Locations t)" by (rule built_goodLocations)
  have a: "\<forall>k ps. Locations t k = Some ps \<longrightarrow>
            CHR '';'' \<notin> set k \<and> (\<forall>p\<in>set ps. \<forall>seg\<in>set p. CHR '';'' \<notin> set seg)"
    using good unfolding goodLocations_def by blast
  have b: "Reference_of t term =
        Inr (map (\<lambda>p. \<lparr>MedicalSubjectHeading = term, TreeLocation = p\<rparr>) ps)"
    if ps: "Locations t (ToLower term) = Some ps" for ps
  proof -
    from good ps have "CHR '';'' \<notin> set (ToLower term)"
      and segs: "\<forall>p\<in>set ps. p \<noteq> []
        \<and> (\<forall>seg\<in>set p. CHR '';'' \<notin> set seg \<and> CHR ''.'' \<notin> set seg)"
      unfolding goodLocations_def by blast+
    then have "CHR '';'' \<notin> set term" by (simp add: ToLower_semicolon)
    from referenceLoop_ok[OF this segs, of "[]"] ps show ?thesis
      by (simp add: Reference_of_def)
  qed
  show ?thesis using a b by (auto simp: Reference_of_def split: option.splits)
qed

theorem Reference_never_panics_witness:
  "MeSHTreeFromReader [''A;1'', ''B;1.1'', ''C;1.1.1'']
     = Inr (projr (MeSHTreeFromReader [''A;1'', ''B;1.1'', ''C;1.1.1'']))
   \<and> Reference_of (projr (MeSHTreeFromReader [''A;1'', ''B;1.1'', ''C;1.1.1''])) ''C''
       = Inr [\<lparr>MedicalSubjectHeading = ''C'', TreeLocation = [''1'', ''1'', ''1'']\<rparr>]
   \<and> Reference_of (projr (MeSHTreeFromReader [''A;1'', ''B;1.1'', ''C;1.1.1''])) ''x;y''
       = Inr []"
proof -
  let ?L = "[''A;1'', ''B;1.1'', ''C;1.1.1'']"
  let ?T = "projr (MeSHTreeFromReader ?L)"
  have "\<not> isl (MeSHTreeFromReader ?L)" by code_simp
  then have h: "MeSHTreeFromReader ?L = Inr ?T" by (rule built_projr)
  have lc: "Locations ?T (ToLower ''C'') = Some [[''1'', ''1'', ''1'']]" by code_simp
  have lx: "Locations ?T (ToLower ''x;y'') = None" by code_simp
  from Reference_never_panics[OF h, of "''C''"] lc
  have "Reference_of ?T ''C''
      = Inr [\<lparr>MedicalSubjectHeading = ''C'', TreeLocation = [''1'', ''1'', ''1'']\<rparr>]"
    by simp
  moreover from Reference_never_panics[OF h, of "''x;y''"] lx
  have "Reference_of ?T ''x;y'' = Inr []" by simp
  ultimately show ?thesis using h by blast
qed

section \<open>Parents\<close>

lemma sameLocation_in_range:
  "length loc \<le> length other \<Longrightarrow>
     sameLocation loc other = Inr (take (length loc) other = loc)"
  by (induction loc other rule: sameLocation.induct) auto

lemma parentsIn_ok:
  "\<forall>(k, n)\<in>set cands. length loc \<le> length (TreeLocation (Reference n)) \<Longrightarrow>
     parentsIn loc cands acc =
       Inr (acc @ [MedicalSubjectHeading (Reference n).
                     (k, n) \<leftarrow> cands,
                     take (length loc) (TreeLocation (Reference n)) = loc])"
  by (induction cands arbitrary: acc) (auto simp: sameLocation_in_range)

lemma parentsLoop_ok:
  "\<forall>p\<in>set ps. 2 < length p \<longrightarrow>
      (\<forall>(k, n)\<in>set (At t (take (length p - 2) p)).
          length p - 1 \<le> length (TreeLocation (Reference n))) \<Longrightarrow>
   parentsLoop t ps acc =
     Inr (acc @ concat (map (\<lambda>p.
        if 2 < length p
        then [MedicalSubjectHeading (Reference n).
                (k, n) \<leftarrow> At t (take (length p - 2) p),
                take (length p - 1) (TreeLocation (Reference n)) = take (length p - 1) p]
        else []) ps))"
proof (induction ps arbitrary: acc)
  case Nil
  then show ?case by simp
next
  case (Cons p ps)
  show ?case
  proof (cases "2 < length p")
    case True
    with Cons.prems have
      "\<forall>(k, n)\<in>set (At t (take (length p - 2) p)).
          length (take (length p - 1) p) \<le> length (TreeLocation (Reference n))"
      by auto
    from parentsIn_ok[OF this, of acc] True Cons show ?thesis by simp
  next
    case False
    with Cons show ?thesis by simp
  qed
qed

lemma candidates_long_enough:
  assumes "wellPlaced [] t" "(k, n) \<in> set (At t q)"
  shows "Suc (length q) \<le> length (TreeLocation (Reference n))"
  using wellPlaced_At[OF assms] by (auto dest: prefix_length_le)

lemma built_candidates:
  assumes "MeSHTreeFromReader lines = Inr t" "2 < length p"
    "(k, n) \<in> set (At (Tree t) (take (length p - 2) p))"
  shows "length p - 1 \<le> length (TreeLocation (Reference n))"
  using candidates_long_enough[OF built_wellPlaced[OF assms(1)] assms(3)] assms(2) by simp

text \<open>What \<open>Parents\<close> returns on every built index: for each recorded location \<open>p\<close>
  of more than two segments, the headings of the entries of the tree at \<open>p[:-2]\<close> whose
  stored location starts with \<open>p[:-1]\<close>.  The loop compares the positions of \<open>p[:-1]\<close>
  only, so a stored location that goes on after them passes as well.\<close>

lemma Parents_prefix_entries:
  assumes "MeSHTreeFromReader lines = Inr t"
  shows "Parents t term =
     Inr (concat (map (\<lambda>p.
        if 2 < length p
        then [MedicalSubjectHeading (Reference n).
                (k, n) \<leftarrow> At (Tree t) (take (length p - 2) p),
                take (length p - 1) (TreeLocation (Reference n)) = take (length p - 1) p]
        else [])
       (case Locations t (ToLower term) of None \<Rightarrow> [] | Some ps \<Rightarrow> ps)))
   \<and> ((\<forall>ps. Locations t (ToLower term) = Some ps \<longrightarrow> (\<forall>p\<in>set ps. length p \<le> 2))
        \<longrightarrow> Parents t term = Inr [])"
proof -
  have ok: "\<forall>p\<in>set ps. 2 < length p \<longrightarrow>
      (\<forall>(k, n)\<in>set (At (Tree t) (take (length p - 2) p)).
          length p - 1 \<le> length (TreeLocation (Reference n)))" for ps
    using built_candidates[OF assms] by blast
  have first: "Parents t term =
     Inr (concat (map (\<lambda>p.
        if 2 < length p
        then [MedicalSubjectHeading (Reference n).
                (k, n) \<leftarrow> At (Tree t) (take (length p - 2) p),
                take (length p - 1) (TreeLocation (Reference n)) = take (length p - 1) p]
        else [])
       (case Locations t (ToLower term) of None \<Rightarrow> [] | Some ps \<Rightarrow> ps)))"
    using parentsLoop_ok[OF ok, of _ "[]"]
    by (simp add: Parents_def split: option.splits)
  moreover have "Parents t term = Inr []"
    if "\<forall>ps. Locations t (ToLower term) = Some ps \<longrightarrow> (\<forall>p\<in>set ps. length p \<le> 2)"
  proof (cases "Locations t (ToLower term)")
    case None
    then show ?thesis by (simp add: Parents_def)
  next
    case (Some ps)
    with that have "\<forall>p\<in>set ps. \<not> 2 < length p" by fastforce
    then have "concat (map (\<lambda>p.
        if 2 < length p
        then [MedicalSubjectHeading (Reference n).
                (k, n) \<leftarrow> At (Tree t) (take (length p - 2) p),
                take (length p - 1) (TreeLocation (Reference n)) = take (length p - 1) p]
        else []) ps) = []"
      by (induction ps) auto
    with first Some show ?thesis by simp
  qed
  ultimately show ?thesis by blast
qed

lemma Parents_prefix_entries_scenario:
  "MeSHTreeFromReader [''A;1'', ''B;1.1'', ''C;1.1.1'']
     = Inr (projr (MeSHTreeFromReader [''A;1'', ''B;1.1'', ''C;1.1.1'']))
   \<and> Parents (projr (MeSHTreeFromReader [''A;1'', ''B;1.1'', ''C;1.1.1''])) ''C''
       = Inr [''B'']
   \<and> Parents (projr (MeSHTreeFromReader [''A;1'', ''B;1.1'', ''C;1.1.1''])) ''B'' = Inr []"
proof -
  let ?L = "[''A;1'', ''B;1.1'', ''C;1.1.1'']"
  let ?T = "projr (MeSHTreeFromReader ?L)"
  have "\<not> isl (MeSHTreeFromReader ?L)" by code_simp
  then have h: "MeSHTreeFromReader ?L = Inr ?T" by (rule built_projr)
  have lc: "Locations ?T (ToLower ''C'') = Some [[''1'', ''1'', ''1'']]" by code_simp
  have at: "At (Tree ?T) [''1''] =
      [(''1'', Node \<lparr>MedicalSubjectHeading = ''B'', TreeLocation = [''1'', ''1'']\<rparr>
         [(''1'', Node \<lparr>MedicalSubjectHeading = ''C'', TreeLocation = [''1'', ''1'', ''1'']\<rparr>
            [] 1)] 0)]"
    by code_simp
  have lb: "Locations ?T (ToLower ''B'') = Some [[''1'', ''1'']]" by code_simp
  from Parents_prefix_entries[OF h, of "''C''"] lc at
  have "Parents ?T ''C'' = Inr [''B'']" by simp
  moreover from Parents_prefix_entries[OF h, of "''B''"] lb
  have "Parents ?T ''B'' = Inr []" by simp
  ultimately show ?thesis using h by blast
qed

text \<open>
  Claim C4 says that \<open>Parents\<close> returns the entries whose stored location matches
  \<open>p[:-1]\<close>, and the comment in the code says that the locations are tested to be the
  same.  On the lines \<open>A;1\<close>, \<open>B;1.2.3\<close> and \<open>C;1.2.4\<close> the only entry of the tree at
  \<open>1\<close> is \<open>B\<close> with the stored location \<open>1.2.3\<close>; for the location \<open>1.2.4\<close> of
  \<open>C\<close> the loop compares the two positions of \<open>1.2\<close>, finds them equal, and \<open>B\<close> is
  returned as a parent although its location is not \<open>1.2\<close>.
\<close>

theorem Parents_longer_stored_path:
  "MeSHTreeFromReader [''A;1'', ''B;1.2.3'', ''C;1.2.4'']
     = Inr (projr (MeSHTreeFromReader [''A;1'', ''B;1.2.3'', ''C;1.2.4'']))
   \<and> Locations (projr (MeSHTreeFromReader [''A;1'', ''B;1.2.3'', ''C;1.2.4'']))
        (ToLower ''C'') = Some [[''1'', ''2'', ''4'']]
   \<and> At (Tree (projr (MeSHTreeFromReader [''A;1'', ''B;1.2.3'', ''C;1.2.4'']))) [''1'']
       = [(''2'', Node \<lparr>MedicalSubjectHeading = ''B'', TreeLocation = [''1'', ''2'', ''3'']\<rparr>
             [(''4'', Node \<lparr>MedicalSubjectHeading = ''C'',
                              TreeLocation = [''1'', ''2'', ''4'']\<rparr> [] 1)] 0)]
   \<and> sameLocation [''1'', ''2''] [''1'', ''2'', ''3''] = Inr True
   \<and> Parents (projr (MeSHTreeFromReader [''A;1'', ''B;1.2.3'', ''C;1.2.4''])) ''C''
       = Inr [''B'']"
proof -
  let ?L = "[''A;1'', ''B;1.2.3'', ''C;1.2.4'']"
  let ?T = "projr (MeSHTreeFromReader ?L)"
  have "\<not> isl (MeSHTreeFromReader ?L)" by code_simp
  then have "MeSHTreeFromReader ?L = Inr ?T" by (rule built_projr)
  moreover have "Locations ?T (ToLower ''C'') = Some [[''1'', ''2'', ''4'']]" by code_simp
  moreover have "At (Tree ?T) [''1'']
       = [(''2'', Node \<lparr>MedicalSubjectHeading = ''B'', TreeLocation = [''1'', ''2'', ''3'']\<rparr>
             [(''4'', Node \<lparr>MedicalSubjectHeading = ''C'',
                              TreeLocation = [''1'', ''2'', ''4'']\<rparr> [] 1)] 0)]"
    by code_simp
  moreover have "sameLocation [''1'', ''2''] [''1'', ''2'', ''3''] = Inr True" by code_simp
  moreover have "Parents ?T ''C'' = Inr [''B'']" by code_simp
  ultimately show ?thesis by blast
qed

text \<open>
  Claim C10.  In every built index, a node reached by walking \<open>d\<close> segments from the
  root stores a location of at least \<open>d\<close> segments; so for every location \<open>p\<close> with
  more than two segments each candidate in the tree at \<open>p[:-2]\<close> stores at least
  \<open>len(p)-1\<close> segments, the comparison with \<open>p[:-1]\<close> reads no index out of range,
  and \<open>Parents\<close> returns without a panic for every term.
\<close>

theorem Parents_index_in_range:
  assumes "MeSHTreeFromReader lines = Inr t"
  shows "(\<forall>q n. nodeAt (Tree t) q = Some n \<longrightarrow>
            length q \<le> length (TreeLocation (Reference n)))
    \<and> (\<forall>p k n. 2 < length p \<and> (k, n) \<in> set (At (Tree t) (take (length p - 2) p)) \<longrightarrow>
          length p - 1 \<le> length (TreeLocation (Reference n))
          \<and> (\<exists>eq. sameLocation (take (length p - 1) p) (TreeLocation (Reference n)) = Inr eq))
    \<and> (\<forall>term. \<exists>parents. Parents t term = Inr parents)"
proof (intro conjI allI impI)
  fix q n
  assume n: "nodeAt (Tree t) q = Some n"
  then have "q \<noteq> []" by (auto simp: nodeAt_def split: if_splits)
  with n have "(last q, n) \<in> set (At (Tree t) (butlast q))"
    by (auto simp: nodeAt_def dest: map_of_SomeD)
  from candidates_long_enough[OF built_wellPlaced[OF assms] this] \<open>q \<noteq> []\<close>
  show "length q \<le> length (TreeLocation (Reference n))" by simp
next
  fix p k n
  assume a: "2 < length p \<and> (k, n) \<in> set (At (Tree t) (take (length p - 2) p))"
  then show l: "length p - 1 \<le> length (TreeLocation (Reference n))"
    using built_candidates[OF assms] by blast
  then have "length (take (length p - 1) p) \<le> length (TreeLocation (Reference n))" by simp
  from sameLocation_in_range[OF this]
  show "\<exists>eq. sameLocation (take (length p - 1) p) (TreeLocation (Reference n)) = Inr eq"
    by blast
next
  fix w
  have ok: "\<forall>p\<in>set ps. 2 < length p \<longrightarrow>
      (\<forall>(k, n)\<in>set (At (Tree t) (take (length p - 2) p)).
          length p - 1 \<le> length (TreeLocation (Reference n)))" for ps
    using built_candidates[OF assms] by blast
  show "\<exists>parents. Parents t w = Inr parents"
    using parentsLoop_ok[OF ok, of _ "[]"]
    by (simp add: Parents_def split: option.splits)
qed

theorem Parents_index_in_range_witness:
  "MeSHTreeFromReader [''A;1'', ''B;1.2.3'', ''C;1.2.4'']
     = Inr (projr (MeSHTreeFromReader [''A;1'', ''B;1.2.3'', ''C;1.2.4'']))
   \<and> map_option (\<lambda>n. TreeLocation (Reference n))
        (nodeAt (Tree (projr (MeSHTreeFromReader [''A;1'', ''B;1.2.3'', ''C;1.2.4''])))
           [''1'', ''2''])
       = Some [''1'', ''2'', ''3'']
   \<and> (\<exists>parents.
         Parents (projr (MeSHTreeFromReader [''A;1'', ''B;1.2.3'', ''C;1.2.4''])) ''C''
           = Inr parents)"
proof -
  let ?L = "[''A;1'', ''B;1.2.3'', ''C;1.2.4'']"
  let ?T = "projr (MeSHTreeFromReader ?L)"
  have "\<not> isl (MeSHTreeFromReader ?L)" by code_simp
  then have h: "MeSHTreeFromReader ?L = Inr ?T" by (rule built_projr)
  have n: "map_option (\<lambda>n. TreeLocation (Reference n)) (nodeAt (Tree ?T) [''1'', ''2''])
      = Some [''1'', ''2'', ''3'']"
    by code_simp
  from Parents_index_in_range[OF h] have "\<exists>parents. Parents ?T ''C'' = Inr parents"
    by blast
  then show ?thesis using h n by blast
qed

section \<open>Where a reference is inserted\<close>

lemma refAt_prefix_closed: "refAt t (q @ r) \<noteq> None \<Longrightarrow> q \<noteq> [] \<Longrightarrow> refAt t q \<noteq> None"
proof (induction q arbitrary: t)
  case Nil
  then show ?case by simp
next
  case (Cons k q)
  then show ?case
    by (cases "q = []") (auto simp: refAt_Cons split: option.splits if_splits)
qed

lemma addChild_error: "addChild n loc ref d = Inl e \<Longrightarrow> e = IndexOutOfRange"
  by (induction n loc ref d rule: addChild.induct) (auto split: option.splits sum.splits)

lemma addChild_existing:
  "loc = [] \<or> refAt (Children n) loc \<noteq> None \<Longrightarrow> addChild n loc ref d = Inl IndexOutOfRange"
proof (induction n loc ref d rule: addChild.induct)
  case (1 n ref depth)
  then show ?case by simp
next
  case (2 n s rest ref depth)
  from "2.prems" obtain inner where
    inner: "map_of (Children n) s = Some inner" and
    rest: "rest = [] \<or> refAt (Children inner) rest \<noteq> None"
    by (auto simp: refAt_Cons split: option.splits if_splits)
  from "2.IH"[OF inner rest] inner show ?case by simp
qed

lemma addFirstLayer_existing:
  "refAt t (TreeLocation ref) \<noteq> None \<Longrightarrow> addFirstLayer t ref = Inl IndexOutOfRange"
proof (cases "TreeLocation ref")
  case Nil
  then show ?thesis by (simp add: addFirstLayer_def)
next
  case (Cons s rest)
  assume "refAt t (TreeLocation ref) \<noteq> None"
  with Cons obtain n where
    n: "map_of t s = Some n" and rest: "rest = [] \<or> refAt (Children n) rest \<noteq> None"
    by (auto simp: refAt_Cons split: option.splits if_splits)
  from addChild_existing[OF rest] n Cons show ?thesis by (simp add: addFirstLayer_def)
qed

lemma addFirstLayer_refAt:
  assumes "addFirstLayer t ref = Inr t'"
  shows "\<exists>j<length (TreeLocation ref).
       refAt t (take (Suc j) (TreeLocation ref)) = None
       \<and> (\<forall>q. refAt t' q =
                (if q = take (Suc j) (TreeLocation ref) then Some ref else refAt t q))"
proof (cases "TreeLocation ref")
  case Nil
  with assms show ?thesis by (simp add: addFirstLayer_def)
next
  case (Cons s rest)
  show ?thesis
  proof (cases "map_of t s")
    case None
    with assms Cons have t': "t' = t @ [(s, Node ref [] 0)]"
      by (simp add: addFirstLayer_def)
    have "refAt t (take (Suc 0) (s # rest)) = None"
      using None by (simp add: refAt_Cons)
    moreover have "\<forall>q. refAt t' q =
        (if q = take (Suc 0) (s # rest) then Some ref else refAt t q)"
      using None by (simp add: t' refAt_snoc_fresh)
    ultimately show ?thesis unfolding Cons by (intro exI[of _ 0]) simp
  next
    case (Some inner)
    with assms Cons obtain inner' where
      step: "addChild inner rest ref 0 = Inr inner'" and
      t': "t' = AList.update s inner' t"
      by (auto simp: addFirstLayer_def split: sum.splits)
    from addChild_refAt[OF step] obtain j where
      j: "j < length rest" and
      none: "refAt (Children inner) (take (Suc j) rest) = None" and
      eq: "\<forall>q. refAt (Children inner') q =
            (if q = take (Suc j) rest then Some ref else refAt (Children inner) q)"
      by blast
    have same: "Reference inner' = Reference inner"
      using step by (rule addChild_Reference)
    have ne: "take (Suc j) rest \<noteq> []" using j by (cases rest) auto
    have a: "refAt t (take (Suc (Suc j)) (s # rest)) = None"
      using Some none ne by (simp add: refAt_Cons)
    have c: "\<forall>q. refAt t' q =
        (if q = take (Suc (Suc j)) (s # rest) then Some ref else refAt t q)"
    proof
      fix q
      show "refAt t' q =
        (if q = take (Suc (Suc j)) (s # rest) then Some ref else refAt t q)"
      proof (cases q)
        case Nil
        then show ?thesis by (simp add: refAt_Nil)
      next
        case (Cons k r)
        show ?thesis
        proof (cases "k = s \<and> r \<noteq> []")
          case True
          have "refAt t' q = refAt (Children inner') r"
            using True Cons by (simp add: t' refAt_update[OF Some same])
          also have "\<dots> = (if r = take (Suc j) rest then Some ref
                            else refAt (Children inner) r)"
            using eq by simp
          also have "refAt (Children inner) r = refAt t q"
            using True Cons Some by (simp add: refAt_Cons)
          finally show ?thesis using True Cons by simp
        next
          case False
          then show ?thesis
            using Cons Some ne by (auto simp: t' refAt_update[OF Some same])
        qed
      qed
    qed
    from a c j show ?thesis unfolding Cons by (intro exI[of _ "Suc j"]) simp
  qed
qed

lemma addFirstLayer_keeps:
  assumes "addFirstLayer t ref = Inr t'" "refAt t q = Some r"
  shows "refAt t' q = Some r"
  using addFirstLayer_refAt[OF assms(1)] assms(2) by force

lemma addFirstLayer_new:
  assumes "addFirstLayer t ref = Inr t'"
    and "length (TreeLocation ref) = 1 \<or> refAt t (butlast (TreeLocation ref)) \<noteq> None"
  shows "refAt t' (TreeLocation ref) = Some ref"
proof -
  let ?p = "TreeLocation ref"
  from addFirstLayer_refAt[OF assms(1)] obtain j where
    j: "j < length ?p" and
    none: "refAt t (take (Suc j) ?p) = None" and
    eq: "\<forall>q. refAt t' q = (if q = take (Suc j) ?p then Some ref else refAt t q)"
    by blast
  have "Suc j = length ?p"
  proof (rule ccontr)
    assume "Suc j \<noteq> length ?p"
    with j have less: "Suc j < length ?p" by simp
    with assms(2) have "refAt t (butlast ?p) \<noteq> None" by auto
    moreover have "butlast ?p = take (Suc j) ?p @ drop (Suc j) (butlast ?p)"
      using less by (metis append_take_drop_id take_butlast)
    ultimately have "refAt t (take (Suc j) ?p @ drop (Suc j) (butlast ?p)) \<noteq> None"
      by simp
    moreover have "take (Suc j) ?p \<noteq> []" using j by (cases ?p) auto
    ultimately have "refAt t (take (Suc j) ?p) \<noteq> None" by (rule refAt_prefix_closed)
    with none show False by simp
  qed
  with eq show ?thesis by simp
qed

section \<open>Lines after an error\<close>

lemma scanLines_append:
  "scanLines tree (xs @ ys) =
     (case scanLines tree xs of Inl e \<Rightarrow> Inl e | Inr tree' \<Rightarrow> scanLines tree' ys)"
  by (induction xs arbitrary: tree) (auto split: sum.splits)

lemma scanLines_malformed:
  "line \<in> set lines \<Longrightarrow> treeReferenceFromString line = Inl e \<Longrightarrow>
     \<exists>e'. scanLines tree lines = Inl e'"
  by (induction lines arbitrary: tree) (auto split: sum.splits)

lemma build_stops_at_malformed_line:
  assumes "MeSHTreeFromReader before = Inr tree" "treeReferenceFromString line = Inl e"
  shows "MeSHTreeFromReader (before @ line # rest) = Inl e"
  using assms by (simp add: MeSHTreeFromReader_def scanLines_append)

lemma no_index_from_malformed_input:
  "line \<in> set lines \<Longrightarrow> treeReferenceFromString line = Inl e \<Longrightarrow>
     \<exists>e'. MeSHTreeFromReader lines = Inl e'"
  unfolding MeSHTreeFromReader_def by (rule scanLines_malformed)

text \<open>
  Claim C2 says that a later line with the full path of an earlier line is absorbed and the
  build succeeds.  On the lines \<open>A;1\<close> and \<open>B;1\<close> the second line finds the node at
  \<open>1\<close>, calls \<open>addChild\<close> with the empty rest of its location, and \<open>location[0]\<close>
  panics: no index is returned.
\<close>

theorem duplicate_path_panics:
  "MeSHTreeFromReader [''A;1'', ''B;1''] = Inl IndexOutOfRange"
  by (simp add: MeSHTreeFromReader_def treeReferenceFromString_def addFirstLayer_def)

text \<open>
  Claim C6 says that a stream with a malformed line ends in the error of the first
  malformed line.  On the lines \<open>A;1\<close>, \<open>B;1\<close> and \<open>X\<close> the second line panics as
  above, before the malformed third line is read.  When the lines before the first malformed
  line build, the parser's error for that line is returned, and no stream with a malformed
  line returns an index (\<open>build_stops_at_malformed_line\<close> and
  \<open>no_index_from_malformed_input\<close>).
\<close>

theorem panic_before_malformed_line:
  "MeSHTreeFromReader [''A;1'', ''B;1'', ''X''] = Inl IndexOutOfRange"
  by (simp add: MeSHTreeFromReader_def treeReferenceFromString_def addFirstLayer_def)

section \<open>Resolving the recorded locations\<close>

lemma scanLines_resolves:
  assumes "scanLines tree lines = Inr t" "parentsFirst seen lines"
    and "\<forall>p\<in>set seen. \<exists>r. refAt (Tree tree) p = Some r \<and> TreeLocation r = p"
    and "\<forall>k ps. Locations tree k = Some ps \<longrightarrow> set ps \<subseteq> set seen"
  shows "\<forall>k ps. Locations t k = Some ps \<longrightarrow>
           (\<forall>p\<in>set ps. \<exists>r. refAt (Tree t) p = Some r \<and> TreeLocation r = p)"
  using assms
proof (induction lines arbitrary: tree seen)
  case Nil
  then show ?case by fastforce
next
  case (Cons line rest)
  from Cons.prems(1) obtain ref t' where
    p: "treeReferenceFromString line = Inr ref" and
    a: "addFirstLayer (Tree tree) ref = Inr t'" and
    r: "scanLines \<lparr>Tree = t', Locations = remember (Locations tree) ref\<rparr> rest = Inr t"
    by (auto split: sum.splits)
  let ?tree' = "\<lparr>Tree = t', Locations = remember (Locations tree) ref\<rparr>"
  from Cons.prems(2) p have
    par: "length (TreeLocation ref) = 1 \<or> butlast (TreeLocation ref) \<in> set seen" and
    pf: "parentsFirst (TreeLocation ref # seen) rest"
    by auto
  from par Cons.prems(3) have
    "length (TreeLocation ref) = 1 \<or> refAt (Tree tree) (butlast (TreeLocation ref)) \<noteq> None"
    by fastforce
  with a have new: "refAt t' (TreeLocation ref) = Some ref" by (rule addFirstLayer_new)
  have old: "\<forall>p\<in>set seen. \<exists>r. refAt t' p = Some r \<and> TreeLocation r = p"
    using Cons.prems(3) addFirstLayer_keeps[OF a] by blast
  have i3: "\<forall>p\<in>set (TreeLocation ref # seen).
      \<exists>r. refAt (Tree ?tree') p = Some r \<and> TreeLocation r = p"
    using new old by simp
  have i4: "\<forall>k ps. Locations ?tree' k = Some ps \<longrightarrow> set ps \<subseteq> set (TreeLocation ref # seen)"
  proof (intro allI impI)
    fix k ps
    assume l: "Locations ?tree' k = Some ps"
    show "set ps \<subseteq> set (TreeLocation ref # seen)"
    proof (cases "k = ToLower (MedicalSubjectHeading ref)")
      case True
      with l have "ps = (case Locations tree k of None \<Rightarrow> [] | Some ps \<Rightarrow> ps)
          @ [TreeLocation ref]"
        by (simp add: remember_def Let_def)
      with Cons.prems(4) show ?thesis by (cases "Locations tree k") auto
    next
      case False
      with l have "Locations tree k = Some ps" by (simp add: remember_def Let_def)
      with Cons.prems(4) show ?thesis by auto
    qed
  qed
  from Cons.IH[OF r pf i3 i4] show ?case .
qed

text \<open>
  Claim C3, amended.  For every index built from lines in which every location, without its
  last segment, is empty or the location of an earlier line, every location recorded in
  \<open>Locations\<close> resolves, walking its segments in order from the root, to exactly one
  node of the tree, and that node stores this location.
\<close>

theorem recorded_locations_resolve:
  assumes "MeSHTreeFromReader lines = Inr t" "parentsFirst [] lines"
    "Locations t k = Some ps" "p \<in> set ps"
  shows "\<exists>!n. nodeAt (Tree t) p = Some n \<and> TreeLocation (Reference n) = p"
proof -
  have "\<forall>k ps. Locations t k = Some ps \<longrightarrow>
           (\<forall>p\<in>set ps. \<exists>r. refAt (Tree t) p = Some r \<and> TreeLocation r = p)"
    by (rule scanLines_resolves[OF assms(1)[unfolded MeSHTreeFromReader_def] assms(2)]) auto
  with assms(3,4) obtain r where "refAt (Tree t) p = Some r" "TreeLocation r = p" by blast
  then show ?thesis by (auto simp: refAt_def)
qed

theorem recorded_locations_resolve_witness:
  "MeSHTreeFromReader [''A;1'', ''B;1.1'', ''C;1.1.1'']
     = Inr (projr (MeSHTreeFromReader [''A;1'', ''B;1.1'', ''C;1.1.1'']))
   \<and> parentsFirst [] [''A;1'', ''B;1.1'', ''C;1.1.1'']
   \<and> Locations (projr (MeSHTreeFromReader [''A;1'', ''B;1.1'', ''C;1.1.1''])) ''c''
       = Some [[''1'', ''1'', ''1'']]
   \<and> (\<exists>n. nodeAt (Tree (projr (MeSHTreeFromReader [''A;1'', ''B;1.1'', ''C;1.1.1''])))
              [''1'', ''1'', ''1''] = Some n
          \<and> TreeLocation (Reference n) = [''1'', ''1'', ''1''])"
proof -
  let ?L = "[''A;1'', ''B;1.1'', ''C;1.1.1'']"
  let ?T = "projr (MeSHTreeFromReader ?L)"
  have "\<not> isl (MeSHTreeFromReader ?L)" by code_simp
  then have h: "MeSHTreeFromReader ?L = Inr ?T" by (rule built_projr)
  have pf: "parentsFirst [] ?L" by code_simp
  have lc: "Locations ?T ''c'' = Some [[''1'', ''1'', ''1'']]" by code_simp
  have "\<exists>!n. nodeAt (Tree ?T) [''1'', ''1'', ''1''] = Some n
          \<and> TreeLocation (Reference n) = [''1'', ''1'', ''1'']"
    by (rule recorded_locations_resolve[OF h pf lc]) simp
  then show ?thesis using h pf lc by blast
qed

text \<open>Without the order of the lines the claim fails: the only line \<open>A;1.2\<close> puts its
  node at \<open>1\<close>, and the recorded location \<open>1.2\<close> resolves to no node.\<close>

theorem unresolved_location_counterexample:
  "MeSHTreeFromReader [''A;1.2''] = Inr (projr (MeSHTreeFromReader [''A;1.2'']))
   \<and> Locations (projr (MeSHTreeFromReader [''A;1.2''])) ''a'' = Some [[''1'', ''2'']]
   \<and> nodeAt (Tree (projr (MeSHTreeFromReader [''A;1.2'']))) [''1'', ''2''] = None"
proof -
  have "\<not> isl (MeSHTreeFromReader [''A;1.2''])" by code_simp
  then have "MeSHTreeFromReader [''A;1.2''] = Inr (projr (MeSHTreeFromReader [''A;1.2'']))"
    by (rule built_projr)
  moreover have
    "Locations (projr (MeSHTreeFromReader [''A;1.2''])) ''a'' = Some [[''1'', ''2'']]"
    by code_simp
  moreover have "nodeAt (Tree (projr (MeSHTreeFromReader [''A;1.2'']))) [''1'', ''2''] = None"
    by code_simp
  ultimately show ?thesis by blast
qed

section \<open>Explode\<close>

lemma At_empty: "At [] q = []"
  by (cases q) auto

lemma At_append: "At t (p @ q) = At (At t p) q"
  by (induction p arbitrary: t) (auto simp: At_empty split: option.splits)

lemma nodeAt_append: "q \<noteq> [] \<Longrightarrow> nodeAt t (p @ q) = nodeAt (At t p) q"
  by (simp add: nodeAt_def butlast_append At_append)

lemma At_nodeAt: "nodeAt t p = Some n \<Longrightarrow> At t p = Children n"
proof -
  assume n: "nodeAt t p = Some n"
  then have ne: "p \<noteq> []" and m: "map_of (At t (butlast p)) (last p) = Some n"
    by (auto simp: nodeAt_def split: if_splits)
  have "At t p = At (At t (butlast p)) [last p]"
    using ne At_append[of t "butlast p" "[last p]"] by simp
  with m show ?thesis by simp
qed

lemma nodeAt_empty: "nodeAt [] q = None"
  by (simp add: nodeAt_def At_empty)

lemma nodeAt_entry:
  "nodeAt ((k, n) # rest) (k' # r) =
     (if k' = k then (if r = [] then Some n else nodeAt (Children n) r)
      else nodeAt rest (k' # r))"
  by (simp add: nodeAt_Cons)

lemma nodeAt_fresh: "k \<notin> fst ` set t \<Longrightarrow> nodeAt t (k # r) = None"
  by (simp add: nodeAt_Cons map_of_eq_None_iff[THEN iffD2])

lemma nodeAt_Nil: "nodeAt t [] = None"
  by (simp add: nodeAt_def)

lemma Terms_nodes:
  "distinctKeys t \<Longrightarrow>
     set (Terms t) = {MedicalSubjectHeading (Reference n) | q n. nodeAt t q = Some n}"
proof (induction t rule: Terms.induct)
  case 1
  then show ?case by (simp add: nodeAt_empty)
next
  case (2 k r c d rest)
  let ?N = "Node r c d"
  let ?H = "\<lambda>t. {MedicalSubjectHeading (Reference n) | q n. nodeAt t q = Some n}"
  from "2.prems" have fresh: "k \<notin> fst ` set rest" and dc: "distinctKeys c"
    and dr: "distinctKeys rest"
    by auto
  from "2.IH" dc dr have ihc: "set (Terms c) = ?H c" and ihr: "set (Terms rest) = ?H rest"
    by auto
  have "?H ((k, ?N) # rest) = insert (MedicalSubjectHeading r) (?H c \<union> ?H rest)"
  proof (intro set_eqI iffI)
    fix x
    assume "x \<in> ?H ((k, ?N) # rest)"
    then obtain q n where x: "x = MedicalSubjectHeading (Reference n)"
      and q: "nodeAt ((k, ?N) # rest) q = Some n"
      by blast
    from q obtain k' r' where qq: "q = k' # r'" by (cases q) (auto simp: nodeAt_Nil)
    show "x \<in> insert (MedicalSubjectHeading r) (?H c \<union> ?H rest)"
    proof (cases "k' = k")
      case True
      with q qq have "(r' = [] \<and> n = ?N) \<or> nodeAt c r' = Some n"
        by (auto simp: nodeAt_entry split: if_splits)
      with x show ?thesis by auto
    next
      case False
      with q qq have "nodeAt rest q = Some n" by (simp add: nodeAt_entry)
      with x show ?thesis by blast
    qed
  next
    fix x
    assume "x \<in> insert (MedicalSubjectHeading r) (?H c \<union> ?H rest)"
    then consider "x = MedicalSubjectHeading r" | "x \<in> ?H c" | "x \<in> ?H rest" by blast
    then show "x \<in> ?H ((k, ?N) # rest)"
    proof cases
      case 1
      have "nodeAt ((k, ?N) # rest) [k] = Some ?N" by (simp add: nodeAt_entry)
      with 1 show ?thesis by force
    next
      case 2
      then obtain q n where x: "x = MedicalSubjectHeading (Reference n)"
        and q: "nodeAt c q = Some n"
        by blast
      from q have "q \<noteq> []" by (auto simp: nodeAt_Nil)
      with q have "nodeAt ((k, ?N) # rest) (k # q) = Some n" by (simp add: nodeAt_entry)
      with x show ?thesis by blast
    next
      case 3
      then obtain q n where x: "x = MedicalSubjectHeading (Reference n)"
        and q: "nodeAt rest q = Some n"
        by blast
      from q obtain k' r' where qq: "q = k' # r'" by (cases q) (auto simp: nodeAt_Nil)
      with q fresh have "k' \<noteq> k" using nodeAt_fresh by fastforce
      with q qq have "nodeAt ((k, ?N) # rest) q = Some n" by (simp add: nodeAt_entry)
      with x show ?thesis by blast
    qed
  qed
  with ihc ihr show ?case by simp
qed

lemma pathsOf_head: "q \<in> set (pathsOf t) \<Longrightarrow> q \<noteq> [] \<and> hd q \<in> fst ` set t"
  by (induction t arbitrary: q rule: pathsOf.induct) auto

lemma pathsOf_nodeAt:
  "distinctKeys t \<Longrightarrow> set (pathsOf t) = {q. nodeAt t q \<noteq> None}"
proof (induction t rule: pathsOf.induct)
  case 1
  then show ?case by (simp add: nodeAt_empty)
next
  case (2 k r c d rest)
  let ?N = "Node r c d"
  from "2.prems" have fresh: "k \<notin> fst ` set rest" and dc: "distinctKeys c"
    and dr: "distinctKeys rest"
    by auto
  from "2.IH" dc dr have ihc: "set (pathsOf c) = {q. nodeAt c q \<noteq> None}"
    and ihr: "set (pathsOf rest) = {q. nodeAt rest q \<noteq> None}"
    by auto
  show ?case
  proof (intro set_eqI iffI)
    fix q
    assume "q \<in> set (pathsOf ((k, ?N) # rest))"
    then consider "q = [k]" | q' where "q = k # q'" "q' \<in> set (pathsOf c)"
      | "q \<in> set (pathsOf rest)"
      by auto
    then show "q \<in> {q. nodeAt ((k, ?N) # rest) q \<noteq> None}"
    proof cases
      case 1
      then show ?thesis by (simp add: nodeAt_entry)
    next
      case 2
      with ihc have "nodeAt c q' \<noteq> None" "q' \<noteq> []" using pathsOf_head by auto
      with 2 show ?thesis by (simp add: nodeAt_entry)
    next
      case 3
      with pathsOf_head obtain k' r' where qq: "q = k' # r'" "k' \<in> fst ` set rest"
        by (cases q) force+
      with fresh have "k' \<noteq> k" by auto
      with 3 ihr qq show ?thesis by (simp add: nodeAt_entry)
    qed
  next
    fix q
    assume "q \<in> {q. nodeAt ((k, ?N) # rest) q \<noteq> None}"
    then have n: "nodeAt ((k, ?N) # rest) q \<noteq> None" by simp
    then obtain k' r' where qq: "q = k' # r'" by (cases q) (auto simp: nodeAt_Nil)
    show "q \<in> set (pathsOf ((k, ?N) # rest))"
    proof (cases "k' = k")
      case True
      with n qq have "r' = [] \<or> nodeAt c r' \<noteq> None"
        by (auto simp: nodeAt_entry split: if_splits)
      with ihc True qq show ?thesis by auto
    next
      case False
      with n qq have "nodeAt rest q \<noteq> None" by (simp add: nodeAt_entry)
      with ihr show ?thesis by simp
    qed
  qed
qed

lemma distinct_pathsOf: "distinctKeys t \<Longrightarrow> distinct (pathsOf t)"
proof (induction t rule: pathsOf.induct)
  case 1
  then show ?case by simp
next
  case (2 k r c d rest)
  from "2.prems" have fresh: "k \<notin> fst ` set rest" and dc: "distinctKeys c"
    and dr: "distinctKeys rest"
    by auto
  have a: "[k] \<notin> set (map ((#) k) (pathsOf c))" using pathsOf_head by fastforce
  have b: "[k] \<notin> set (pathsOf rest)" using pathsOf_head[of "[k]" rest] fresh by auto
  have c: "distinct (map ((#) k) (pathsOf c))"
    using "2.IH"(1)[OF dc] by (simp add: distinct_map)
  have d: "set (map ((#) k) (pathsOf c)) \<inter> set (pathsOf rest) = {}"
  proof (rule ccontr)
    assume "set (map ((#) k) (pathsOf c)) \<inter> set (pathsOf rest) \<noteq> {}"
    then obtain q where "q \<in> set (map ((#) k) (pathsOf c))" "q \<in> set (pathsOf rest)"
      by blast
    then have "hd q = k" "hd q \<in> fst ` set rest" using pathsOf_head by auto
    with fresh show False by simp
  qed
  from a b c d "2.IH"(2)[OF dr] show ?case by simp
qed

lemma Terms_pathsOf:
  "distinctKeys t \<Longrightarrow>
     Terms t = map (\<lambda>q. MedicalSubjectHeading (Reference (the (nodeAt t q)))) (pathsOf t)"
proof (induction t rule: Terms.induct)
  case 1
  then show ?case by simp
next
  case (2 k r c d rest)
  let ?N = "Node r c d"
  let ?h = "\<lambda>t q. MedicalSubjectHeading (Reference (the (nodeAt t q)))"
  from "2.prems" have fresh: "k \<notin> fst ` set rest" and dc: "distinctKeys c"
    and dr: "distinctKeys rest"
    by auto
  have below: "map (?h ((k, ?N) # rest)) (map ((#) k) (pathsOf c)) = map (?h c) (pathsOf c)"
  proof -
    have "?h ((k, ?N) # rest) (k # q) = ?h c q" if "q \<in> set (pathsOf c)" for q
      using pathsOf_head[OF that] by (simp add: nodeAt_entry)
    then show ?thesis by simp
  qed
  have beside: "map (?h ((k, ?N) # rest)) (pathsOf rest) = map (?h rest) (pathsOf rest)"
  proof -
    have "?h ((k, ?N) # rest) q = ?h rest q" if "q \<in> set (pathsOf rest)" for q
    proof -
      from pathsOf_head[OF that] obtain k' r' where qq: "q = k' # r'" "k' \<in> fst ` set rest"
        by (cases q) force+
      with fresh have "k' \<noteq> k" by auto
      with qq show ?thesis by (simp add: nodeAt_entry)
    qed
    then show ?thesis by simp
  qed
  have "?h ((k, ?N) # rest) [k] = MedicalSubjectHeading r" by (simp add: nodeAt_entry)
  with below beside "2.IH"(1)[OF dc] "2.IH"(2)[OF dr] show ?case by simp
qed

lemma finite_nodes: "distinctKeys t \<Longrightarrow> finite {q. nodeAt t q \<noteq> None}"
  using pathsOf_nodeAt[of t] by (metis List.finite_set)

lemma Terms_mset:
  assumes "distinctKeys t"
  shows "mset (Terms t) =
     image_mset (\<lambda>q. MedicalSubjectHeading (Reference (the (nodeAt t q))))
       (mset_set {q. nodeAt t q \<noteq> None})"
proof -
  have "mset_set {q. nodeAt t q \<noteq> None} = mset (pathsOf t)"
    using pathsOf_nodeAt[OF assms] distinct_pathsOf[OF assms] mset_set_set by metis
  then show ?thesis by (simp add: Terms_pathsOf[OF assms])
qed

lemma below_mset:
  assumes "distinctKeys t"
  shows "finite {q. q \<noteq> [] \<and> nodeAt t (p @ q) \<noteq> None}
    \<and> mset (Terms (At t p)) =
       image_mset (\<lambda>q. MedicalSubjectHeading (Reference (the (nodeAt t (p @ q)))))
         (mset_set {q. q \<noteq> [] \<and> nodeAt t (p @ q) \<noteq> None})"
proof -
  from assms have d: "distinctKeys (At t p)" by (rule distinctKeys_At)
  have s: "{q. nodeAt (At t p) q \<noteq> None} = {q. q \<noteq> [] \<and> nodeAt t (p @ q) \<noteq> None}"
  proof -
    have "nodeAt (At t p) q \<noteq> None \<longleftrightarrow> q \<noteq> [] \<and> nodeAt t (p @ q) \<noteq> None" for q
      by (cases "q = []") (simp_all add: nodeAt_Nil nodeAt_append)
    then show ?thesis by simp
  qed
  have "image_mset (\<lambda>q. MedicalSubjectHeading (Reference (the (nodeAt (At t p) q))))
          (mset_set {q. nodeAt (At t p) q \<noteq> None})
      = image_mset (\<lambda>q. MedicalSubjectHeading (Reference (the (nodeAt t (p @ q)))))
          (mset_set {q. nodeAt (At t p) q \<noteq> None})"
  proof (rule image_mset_cong)
    fix q
    assume "q \<in># mset_set {q. nodeAt (At t p) q \<noteq> None}"
    then have "nodeAt (At t p) q \<noteq> None"
      using finite_nodes[OF d] by simp
    then have "q \<noteq> []" by (auto simp: nodeAt_Nil)
    then show "MedicalSubjectHeading (Reference (the (nodeAt (At t p) q)))
        = MedicalSubjectHeading (Reference (the (nodeAt t (p @ q))))"
      by (simp add: nodeAt_append)
  qed
  with Terms_mset[OF d] finite_nodes[OF d] s show ?thesis by simp
qed

lemma foldl_append_concat: "foldl (\<lambda>acc x. acc @ f x) a xs = a @ concat (map f xs)"
  by (induction xs arbitrary: a) auto

lemma Explode_concat:
  "Explode t term =
     concat (map (\<lambda>p. Terms (At (Tree t) p))
       (case Locations t (ToLower term) of None \<Rightarrow> [] | Some ps \<Rightarrow> ps))"
  by (simp add: Explode_def foldl_append_concat split: option.splits)

text \<open>
  Claim C1, amended.  For every built index and every term, \<open>Explode\<close> returns, for each
  location recorded for the lower-cased term, in the order of recording and without removing
  duplicates, the headings below the node that the location resolves to: one heading for
  every node reached from it by one or more further segments, each as often as there are
  such nodes with that heading, and not the heading of the node itself.  For a term whose
  single location resolves to a node with no children it returns the empty sequence.
\<close>

theorem Explode_descendants:
  assumes "MeSHTreeFromReader lines = Inr t"
  shows "Explode t term =
     concat (map (\<lambda>p. Terms (At (Tree t) p))
       (case Locations t (ToLower term) of None \<Rightarrow> [] | Some ps \<Rightarrow> ps))
   \<and> (case Locations t (ToLower term) of None \<Rightarrow> [] | Some ps \<Rightarrow> ps)
       = recorded lines (ToLower term)
   \<and> (\<forall>p. finite {q. q \<noteq> [] \<and> nodeAt (Tree t) (p @ q) \<noteq> None}
         \<and> mset (Terms (At (Tree t) p)) =
            image_mset (\<lambda>q. MedicalSubjectHeading (Reference (the (nodeAt (Tree t) (p @ q)))))
              (mset_set {q. q \<noteq> [] \<and> nodeAt (Tree t) (p @ q) \<noteq> None}))
   \<and> mset (Explode t term) =
       (\<Sum>p\<leftarrow>recorded lines (ToLower term).
          image_mset (\<lambda>q. MedicalSubjectHeading (Reference (the (nodeAt (Tree t) (p @ q)))))
            (mset_set {q. q \<noteq> [] \<and> nodeAt (Tree t) (p @ q) \<noteq> None}))
   \<and> (\<forall>p n. Locations t (ToLower term) = Some [p] \<and> nodeAt (Tree t) p = Some n
          \<and> Children n = [] \<longrightarrow> Explode t term = [])"
proof -
  let ?ps = "case Locations t (ToLower term) of None \<Rightarrow> [] | Some ps \<Rightarrow> ps"
  let ?below = "\<lambda>p. image_mset
      (\<lambda>q. MedicalSubjectHeading (Reference (the (nodeAt (Tree t) (p @ q)))))
      (mset_set {q. q \<noteq> [] \<and> nodeAt (Tree t) (p @ q) \<noteq> None})"
  from assms have d: "distinctKeys (Tree t)" by (rule built_distinctKeys)
  have c1: "Explode t term = concat (map (\<lambda>p. Terms (At (Tree t) p)) ?ps)"
    by (rule Explode_concat)
  have c2: "?ps = recorded lines (ToLower term)"
    by (simp add: built_Locations[OF assms])
  have c3: "finite {q. q \<noteq> [] \<and> nodeAt (Tree t) (p @ q) \<noteq> None}
      \<and> mset (Terms (At (Tree t) p)) = ?below p" for p
    using below_mset[OF d] .
  have "mset (Explode t term) = (\<Sum>p\<leftarrow>?ps. mset (Terms (At (Tree t) p)))"
    by (simp add: c1 mset_concat comp_def)
  also have "\<dots> = (\<Sum>p\<leftarrow>?ps. ?below p)"
    using c3 by simp
  finally have c4: "mset (Explode t term) = (\<Sum>p\<leftarrow>recorded lines (ToLower term). ?below p)"
    using c2 by simp
  have c5: "Explode t term = []"
    if "Locations t (ToLower term) = Some [p] \<and> nodeAt (Tree t) p = Some n
      \<and> Children n = []" for p n
    using that by (simp add: Explode_concat At_nodeAt)
  from c1 c2 c3 c4 c5 show ?thesis by blast
qed

theorem Explode_descendants_witness:
  "MeSHTreeFromReader [''A;1'', ''B;1.1'', ''B;1.2'', ''C;1.1.1'']
     = Inr (projr (MeSHTreeFromReader [''A;1'', ''B;1.1'', ''B;1.2'', ''C;1.1.1'']))
   \<and> Explode (projr (MeSHTreeFromReader [''A;1'', ''B;1.1'', ''B;1.2'', ''C;1.1.1''])) ''A''
       = [''B'', ''C'', ''B'']
   \<and> Explode (projr (MeSHTreeFromReader [''A;1'', ''B;1.1'', ''B;1.2'', ''C;1.1.1''])) ''C''
       = []"
proof -
  let ?L = "[''A;1'', ''B;1.1'', ''B;1.2'', ''C;1.1.1'']"
  let ?T = "projr (MeSHTreeFromReader ?L)"
  have "\<not> isl (MeSHTreeFromReader ?L)" by code_simp
  then have h: "MeSHTreeFromReader ?L = Inr ?T" by (rule built_projr)
  have la: "Locations ?T (ToLower ''A'') = Some [[''1'']]" by code_simp
  have ta: "Terms (At (Tree ?T) [''1'']) = [''B'', ''C'', ''B'']" by code_simp
  have lc: "Locations ?T (ToLower ''C'') = Some [[''1'', ''1'', ''1'']]" by code_simp
  have tc: "Terms (At (Tree ?T) [''1'', ''1'', ''1'']) = []" by code_simp
  from Explode_descendants[OF h, of "''A''", THEN conjunct1] la ta
  have "Explode ?T ''A'' = [''B'', ''C'', ''B'']"
    by simp
  moreover from Explode_descendants[OF h, of "''C''", THEN conjunct1] lc tc
  have "Explode ?T ''C'' = []"
    by simp
  ultimately show ?thesis using h by blast
qed

text \<open>As stated, with the heading of the node itself in the result, the claim fails on the
  one line \<open>A;1\<close>: the location of \<open>A\<close> resolves to a node without children, and the
  result is empty.\<close>

theorem Explode_leaf_counterexample:
  "MeSHTreeFromReader [''A;1''] = Inr (projr (MeSHTreeFromReader [''A;1'']))
   \<and> Locations (projr (MeSHTreeFromReader [''A;1''])) (ToLower ''A'') = Some [[''1'']]
   \<and> map_option Children (nodeAt (Tree (projr (MeSHTreeFromReader [''A;1'']))) [''1''])
       = Some []
   \<and> Explode (projr (MeSHTreeFromReader [''A;1''])) ''A'' \<noteq> [''A'']"
proof -
  have "\<not> isl (MeSHTreeFromReader [''A;1''])" by code_simp
  then have "MeSHTreeFromReader [''A;1''] = Inr (projr (MeSHTreeFromReader [''A;1'']))"
    by (rule built_projr)
  moreover have
    "Locations (projr (MeSHTreeFromReader [''A;1''])) (ToLower ''A'') = Some [[''1'']]"
    by code_simp
  moreover have
    "map_option Children (nodeAt (Tree (projr (MeSHTreeFromReader [''A;1'']))) [''1''])
       = Some []"
    by code_simp
  moreover have "Explode (projr (MeSHTreeFromReader [''A;1''])) ''A'' \<noteq> [''A'']"
    by code_simp
  ultimately show ?thesis by blast
qed

end
